theory Spec2Isabelle
  imports Main "HOL-Library.Log_Nat" "HOL-Library.Code_Target_Numeral"
begin

section \<open>JavaScript numbers\<close>

text \<open>
  The settlement function \<^verbatim>\<open>calculateExpenseSplit\<close> of
  \<^verbatim>\<open>src/firebase/nativeConfig.js\<close> computes with JavaScript numbers, that is
  with IEEE 754 binary64 values.  A number is \<^verbatim>\<open>NaN\<close>, one of the two
  infinities, or a finite value, kept here as the rational it denotes.  Every
  arithmetic operation computes the exact rational result and rounds it to
  the nearest binary64 value, ties to even, as the language prescribes.

  The two zeros \<^verbatim>\<open>+0\<close> and \<^verbatim>\<open>-0\<close> are one value \<open>Fin 0\<close>: the function
  never divides by a zero and never prints a zero, and no other operation it
  uses tells them apart.
\<close>

datatype jsnum = NaN | PInf | NInf | Fin rat

definition pow2 :: "int \<Rightarrow> rat" where
  "pow2 k = (if 0 \<le> k then 2 ^ nat k else 1 / 2 ^ nat (- k))"

text \<open>\<open>ilog2 x\<close> is the binary exponent of a positive rational: \<open>2 ^ e \<le> x < 2 ^ (e + 1)\<close>.\<close>

definition ilog2 :: "rat \<Rightarrow> int" where
  "ilog2 x = (let (p, q) = quotient_of x; d = bitlen p - bitlen q
              in if pow2 d \<le> x then d else d - 1)"

definition round_half_even :: "rat \<Rightarrow> int" where
  "round_half_even y =
     (let f = \<lfloor>y\<rfloor>; r = y - of_int f
      in if r < 1 / 2 then f else if 1 / 2 < r then f + 1
         else if even f then f else f + 1)"

text \<open>
  Rounding of a real result to binary64.  A value has 53 significant bits
  and a least exponent of \<open>-1022\<close>, so the representable numbers around \<open>x\<close>
  are the multiples of \<open>quantum x\<close> (\<open>2 ^ -1074\<close> in the subnormal range).
  \<open>round_unbounded\<close> rounds to the nearest multiple, ties to even, as if
  the exponent had no upper limit; \<open>fl\<close> then overflows to an infinity once
  the rounded value reaches \<open>2 ^ 1024\<close>.
\<close>

definition quantum :: "rat \<Rightarrow> rat" where
  "quantum x = pow2 (max (ilog2 \<bar>x\<bar>) (- 1022) - 52)"

definition round_unbounded :: "rat \<Rightarrow> rat" where
  "round_unbounded x =
     (if x = 0 then 0 else of_int (round_half_even (x / quantum x)) * quantum x)"

definition fl :: "rat \<Rightarrow> jsnum" where
  "fl x =
     (let y = round_unbounded x
      in if pow2 1024 \<le> y then PInf
         else if y \<le> - pow2 1024 then NInf
         else Fin y)"

fun jneg :: "jsnum \<Rightarrow> jsnum" where
  "jneg NaN = NaN"
| "jneg PInf = NInf"
| "jneg NInf = PInf"
| "jneg (Fin a) = Fin (- a)"

fun jadd :: "jsnum \<Rightarrow> jsnum \<Rightarrow> jsnum" where
  "jadd NaN _ = NaN"
| "jadd _ NaN = NaN"
| "jadd PInf NInf = NaN"
| "jadd NInf PInf = NaN"
| "jadd PInf _ = PInf"
| "jadd _ PInf = PInf"
| "jadd NInf _ = NInf"
| "jadd _ NInf = NInf"
| "jadd (Fin a) (Fin b) = fl (a + b)"

definition jsub :: "jsnum \<Rightarrow> jsnum \<Rightarrow> jsnum" where
  "jsub a b = jadd a (jneg b)"

text \<open>The sign of a number, \<open>0\<close> for zero and for \<^verbatim>\<open>NaN\<close>.\<close>

fun jsign :: "jsnum \<Rightarrow> int" where
  "jsign NaN = 0"
| "jsign PInf = 1"
| "jsign NInf = - 1"
| "jsign (Fin a) = sgn \<lfloor>sgn a\<rfloor>"

definition signed_inf :: "int \<Rightarrow> jsnum" where
  "signed_inf s = (if 0 < s then PInf else NInf)"

fun jmul :: "jsnum \<Rightarrow> jsnum \<Rightarrow> jsnum" where
  "jmul NaN _ = NaN"
| "jmul _ NaN = NaN"
| "jmul (Fin a) (Fin b) = fl (a * b)"
| "jmul a b = (if jsign a = 0 \<or> jsign b = 0 then NaN else signed_inf (jsign a * jsign b))"

text \<open>
  Division.  The function divides by the number of valid members, which is
  at least one, and by the literal \<open>100\<close>; a zero divisor is read as \<^verbatim>\<open>+0\<close>.
\<close>

fun jdiv :: "jsnum \<Rightarrow> jsnum \<Rightarrow> jsnum" where
  "jdiv NaN _ = NaN"
| "jdiv _ NaN = NaN"
| "jdiv (Fin a) (Fin b) =
     (if b = 0 then (if a = 0 then NaN else signed_inf (jsign (Fin a))) else fl (a / b))"
| "jdiv (Fin a) _ = Fin 0"
| "jdiv a (Fin b) = signed_inf (jsign a * (if b < 0 then - 1 else 1))"
| "jdiv _ _ = NaN"

text \<open>The comparison \<^verbatim>\<open>a < b\<close>; \<^verbatim>\<open>a > b\<close> is \<open>jlt b a\<close>.  A comparison with \<^verbatim>\<open>NaN\<close> is false.\<close>

fun jlt :: "jsnum \<Rightarrow> jsnum \<Rightarrow> bool" where
  "jlt NaN _ = False"
| "jlt _ NaN = False"
| "jlt (Fin a) (Fin b) = (a < b)"
| "jlt NInf NInf = False"
| "jlt NInf _ = True"
| "jlt _ NInf = False"
| "jlt PInf _ = False"
| "jlt _ PInf = True"

text \<open>\<^verbatim>\<open>Math.min\<close>, \<^verbatim>\<open>Math.abs\<close> and \<^verbatim>\<open>Math.round\<close> (the nearest integer, a tie going up).\<close>

definition Math_min :: "jsnum \<Rightarrow> jsnum \<Rightarrow> jsnum" where
  "Math_min a b = (if a = NaN \<or> b = NaN then NaN else if jlt b a then b else a)"

fun Math_abs :: "jsnum \<Rightarrow> jsnum" where
  "Math_abs NaN = NaN"
| "Math_abs PInf = PInf"
| "Math_abs NInf = PInf"
| "Math_abs (Fin a) = Fin \<bar>a\<bar>"

fun Math_round :: "jsnum \<Rightarrow> jsnum" where
  "Math_round (Fin a) = Fin (of_int \<lfloor>a + 1 / 2\<rfloor>)"
| "Math_round a = a"

text \<open>The literals of the source: \<open>0.01\<close> is the binary64 value nearest to one hundredth.\<close>

definition lit_100 :: jsnum where
  "lit_100 = Fin 100"

definition lit_0_01 :: jsnum where
  "lit_0_01 = fl (1 / 100)"

section \<open>Strings and values\<close>

text \<open>
  A string is a sequence of code units; names are taken over the code units
  \<open>0\<close> to \<open>255\<close>.  In that range the white space and line terminators that
  \<^verbatim>\<open>trim\<close> and the conversion of a string to a number strip are the code
  units 9 to 13, 32 and 160.
\<close>

definition is_ws :: "char \<Rightarrow> bool" where
  "is_ws c = ((of_char c :: nat) \<in> {9, 10, 11, 12, 13, 32, 160})"

definition trim :: "string \<Rightarrow> string" where
  "trim s = rev (dropWhile is_ws (rev (dropWhile is_ws s)))"

definition hex_val :: "char \<Rightarrow> nat" where
  "hex_val c =
     (let n = (of_char c :: nat)
      in if 48 \<le> n \<and> n \<le> 57 then n - 48
         else if 97 \<le> n \<and> n \<le> 102 then n - 87
         else if 65 \<le> n \<and> n \<le> 70 then n - 55
         else 16)"

definition digit_in :: "nat \<Rightarrow> char \<Rightarrow> bool" where
  "digit_in base c = (hex_val c < base)"

definition is_digit :: "char \<Rightarrow> bool" where
  "is_digit c = digit_in 10 c"

definition digits_value :: "nat \<Rightarrow> string \<Rightarrow> nat" where
  "digits_value base ds = foldl (\<lambda>n c. base * n + hex_val c) 0 ds"

definition pow10 :: "int \<Rightarrow> rat" where
  "pow10 k = (if 0 \<le> k then 10 ^ nat k else 1 / 10 ^ nat (- k))"

text \<open>
  The conversion of a string to a number (\<^verbatim>\<open>Number(s)\<close>): white space is
  stripped, the empty string is \<open>0\<close>, a signed decimal literal with an
  optional fraction and exponent, \<^verbatim>\<open>Infinity\<close>, or an unsigned binary, octal
  or hexadecimal integer literal is its value rounded to binary64, and
  anything else is \<^verbatim>\<open>NaN\<close>.
\<close>

definition exponent_part :: "string \<Rightarrow> int option" where
  "exponent_part s =
     (case s of
        [] \<Rightarrow> Some 0
      | c # r \<Rightarrow>
          if c = CHR ''e'' \<or> c = CHR ''E'' then
            (let neg = (r \<noteq> [] \<and> hd r = CHR ''-'');
                 ds = (if r \<noteq> [] \<and> (hd r = CHR ''-'' \<or> hd r = CHR ''+'') then tl r else r)
             in if ds \<noteq> [] \<and> list_all is_digit ds
                then Some ((if neg then - 1 else 1) * int (digits_value 10 ds))
                else None)
          else None)"

definition unsigned_decimal :: "string \<Rightarrow> jsnum" where
  "unsigned_decimal s =
     (if s = ''Infinity'' then PInf
      else let ip = takeWhile is_digit s;
               r1 = dropWhile is_digit s;
               has_dot = (r1 \<noteq> [] \<and> hd r1 = CHR ''.'');
               fp = (if has_dot then takeWhile is_digit (tl r1) else []);
               r2 = (if has_dot then dropWhile is_digit (tl r1) else r1)
           in if ip = [] \<and> fp = [] then NaN
              else (case exponent_part r2 of
                      None \<Rightarrow> NaN
                    | Some e \<Rightarrow>
                        fl (of_nat (digits_value 10 (ip @ fp)) * pow10 (e - int (length fp)))))"

definition radix_prefix :: "string \<Rightarrow> (nat \<times> string) option" where
  "radix_prefix s =
     (case s of
        c # d # r \<Rightarrow>
          if c \<noteq> CHR ''0'' then None
          else if d = CHR ''x'' \<or> d = CHR ''X'' then Some (16, r)
          else if d = CHR ''o'' \<or> d = CHR ''O'' then Some (8, r)
          else if d = CHR ''b'' \<or> d = CHR ''B'' then Some (2, r)
          else None
      | _ \<Rightarrow> None)"

definition string_to_number :: "string \<Rightarrow> jsnum" where
  "string_to_number str =
     (let s = trim str
      in case s of
           [] \<Rightarrow> Fin 0
         | c # r \<Rightarrow>
             if c = CHR ''+'' then unsigned_decimal r
             else if c = CHR ''-'' then jneg (unsigned_decimal r)
             else (case radix_prefix s of
                     Some (b, ds) \<Rightarrow>
                       if ds \<noteq> [] \<and> list_all (digit_in b) ds
                       then fl (of_nat (digits_value b ds)) else NaN
                   | None \<Rightarrow> unsigned_decimal s))"

text \<open>
  The values an expense field can hold: the primitive values of the
  language.  (Objects, symbols and big integers are left out.)
\<close>

datatype jsval = JUndefined | JNull | JBool bool | JNum jsnum | JStr string

text \<open>Truthiness, as tested by \<^verbatim>\<open>!x\<close>, \<^verbatim>\<open>x && y\<close> and \<^verbatim>\<open>x || y\<close>.\<close>

fun to_boolean :: "jsval \<Rightarrow> bool" where
  "to_boolean JUndefined = False"
| "to_boolean JNull = False"
| "to_boolean (JBool b) = b"
| "to_boolean (JNum n) = (n \<noteq> NaN \<and> n \<noteq> Fin 0)"
| "to_boolean (JStr s) = (s \<noteq> [])"

text \<open>\<^verbatim>\<open>Number(x)\<close>.\<close>

fun to_number :: "jsval \<Rightarrow> jsnum" where
  "to_number JUndefined = NaN"
| "to_number JNull = Fin 0"
| "to_number (JBool b) = (if b then Fin 1 else Fin 0)"
| "to_number (JNum n) = n"
| "to_number (JStr s) = string_to_number s"

subsection \<open>Printing a number with two decimals\<close>

definition digit_char :: "nat \<Rightarrow> char" where
  "digit_char d = char_of (48 + d)"

fun nat_digits :: "nat \<Rightarrow> string" where
  "nat_digits n =
     (if n < 10 then [digit_char n] else nat_digits (n div 10) @ [digit_char (n mod 10)])"

declare nat_digits.simps [simp del]

text \<open>
  Fixed notation with two decimals, for \<open>0 \<le> x < 10 ^ 21\<close>: the integer \<open>n\<close>
  with \<open>n / 100\<close> nearest to \<open>x\<close> (the larger one at a tie), padded to three
  digits at least, with the point before the last two.
\<close>

definition fixed_2 :: "rat \<Rightarrow> string" where
  "fixed_2 x =
     (let m = nat_digits (nat \<lfloor>x * 100 + 1 / 2\<rfloor>);
          m' = replicate (3 - length m) (CHR ''0'') @ m
      in take (length m' - 2) m' @ ''.'' @ drop (length m' - 2) m')"

text \<open>
  From \<open>10 ^ 21\<close> on, \<^verbatim>\<open>toFixed\<close> hands over to the plain conversion of a number
  to a string, which prints the shortest decimal digit string that reads
  back as the same binary64 value, in exponent notation at this magnitude.
  \<open>digit_candidates k x\<close> are the two \<open>k\<close>-digit decimals around \<open>x\<close>.
\<close>

definition digit_candidates :: "nat \<Rightarrow> rat \<Rightarrow> (int \<times> int) list" where
  "digit_candidates k x =
     (let e = int (length (nat_digits (nat \<lfloor>x\<rfloor>))) - int k;
          lo = \<lfloor>x / pow10 e\<rfloor>
      in filter (\<lambda>(s, e). fl (of_int s * pow10 e) = Fin x) [(lo, e), (lo + 1, e)])"

definition closest_to :: "rat \<Rightarrow> (int \<times> int) list \<Rightarrow> (int \<times> int)" where
  "closest_to x cs =
     (case cs of
        [c] \<Rightarrow> c
      | [(s, e), (s', e')] \<Rightarrow>
          if \<bar>of_int s' * pow10 e' - x\<bar> < \<bar>of_int s * pow10 e - x\<bar> then (s', e') else (s, e)
      | _ \<Rightarrow> (0, 0))"

fun shortest_digits :: "nat \<Rightarrow> nat \<Rightarrow> rat \<Rightarrow> (int \<times> int)" where
  "shortest_digits 0 k x = (0, 0)"
| "shortest_digits (Suc fuel) k x =
     (if digit_candidates k x = [] then shortest_digits fuel (Suc k) x
      else closest_to x (digit_candidates k x))"

definition exponent_string :: "rat \<Rightarrow> string" where
  "exponent_string x =
     (let (s, e) = shortest_digits 21 1 x;
          (s, e) = (if s = 10 then (1, e + 1) else (s, e));
          ds = nat_digits (nat s);
          n = e + int (length ds)
      in (if length ds = 1 then ds else take 1 ds @ ''.'' @ drop 1 ds)
         @ ''e+'' @ nat_digits (nat (n - 1)))"

definition fixed_abs :: "rat \<Rightarrow> string" where
  "fixed_abs x = (if 10 ^ 21 \<le> x then exponent_string x else fixed_2 x)"

text \<open>\<^verbatim>\<open>x.toFixed(2)\<close>.\<close>

fun toFixed_2 :: "jsnum \<Rightarrow> string" where
  "toFixed_2 NaN = ''NaN''"
| "toFixed_2 PInf = ''Infinity''"
| "toFixed_2 NInf = ''-Infinity''"
| "toFixed_2 (Fin x) = (if x < 0 then ''-'' @ fixed_abs (- x) else fixed_abs x)"

section \<open>Objects used as dictionaries\<close>

text \<open>
  \<^verbatim>\<open>totalSpent\<close> and \<^verbatim>\<open>balances\<close> are plain objects keyed by member name and
  holding numbers.  An object is the list of its own properties in the order
  they were created.  An assignment to an existing property keeps its place;
  an assignment of a number to the property \<^verbatim>\<open>__proto__\<close> has no effect.
\<close>

type_synonym obj = "(string \<times> jsnum) list"

fun prop_update :: "obj \<Rightarrow> string \<Rightarrow> jsnum \<Rightarrow> obj" where
  "prop_update [] k v = [(k, v)]"
| "prop_update ((k', v') # ps) k v =
     (if k' = k then (k, v) # ps else (k', v') # prop_update ps k v)"

definition prop_assign :: "obj \<Rightarrow> string \<Rightarrow> jsnum \<Rightarrow> obj" where
  "prop_assign ps k v = (if k = ''__proto__'' then ps else prop_update ps k v)"

text \<open>
  \<^verbatim>\<open>Object.keys\<close> and \<^verbatim>\<open>Object.values\<close> enumerate the own properties: first the
  keys that are array indices (canonical decimal numerals below \<open>2 ^ 32 - 1\<close>)
  in ascending numeric order, then all other keys in creation order.
\<close>

definition is_array_index :: "string \<Rightarrow> bool" where
  "is_array_index k =
     (k \<noteq> [] \<and> list_all is_digit k \<and> (k = ''0'' \<or> hd k \<noteq> CHR ''0'')
      \<and> digits_value 10 k < 2 ^ 32 - 1)"

definition own_entries :: "obj \<Rightarrow> (string \<times> jsnum) list" where
  "own_entries ps =
     sort_key (\<lambda>(k, v). digits_value 10 k) (filter (\<lambda>(k, v). is_array_index k) ps)
     @ filter (\<lambda>(k, v). \<not> is_array_index k) ps"

definition Object_keys :: "obj \<Rightarrow> string list" where
  "Object_keys ps = map fst (own_entries ps)"

definition Object_values :: "obj \<Rightarrow> jsnum list" where
  "Object_values ps = map snd (own_entries ps)"

text \<open>
  Reading a property in a numeric context.  A name that is not an own
  property is inherited from the prototype or undefined, and either way
  converts to \<^verbatim>\<open>NaN\<close>.
\<close>

definition prop_number :: "obj \<Rightarrow> string \<Rightarrow> jsnum" where
  "prop_number ps k = (case map_of ps k of Some v \<Rightarrow> v | None \<Rightarrow> NaN)"

section \<open>The settlement function\<close>

text \<open>
  An expense record; the calculator reads only \<^verbatim>\<open>payer\<close> and \<^verbatim>\<open>amount\<close>.
  A creditor or debtor is an object with a name and a running balance; a
  transaction is the output object \<^verbatim>\<open>{from, to, amount}\<close> with the amount as
  the string that \<^verbatim>\<open>toFixed(2)\<close> returns.
\<close>

record expense =
  payer :: jsval
  amount :: jsval

record party =
  name :: string
  balance :: jsnum

record transaction =
  tx_from :: string
  tx_to :: string
  tx_amount :: string

text \<open>\<^verbatim>\<open>members.filter(member => member && member.trim() !== "")\<close>\<close>

definition valid_member :: "string \<Rightarrow> bool" where
  "valid_member member = (member \<noteq> [] \<and> trim member \<noteq> [])"

text \<open>A name is blank when it is empty or consists of white space only.\<close>

definition blank :: "string \<Rightarrow> bool" where
  "blank member = list_all is_ws member"

text \<open>Step 1: \<^verbatim>\<open>totalSpent[member] = 0\<close> for every valid member, in order.\<close>

definition init_totals :: "string list \<Rightarrow> obj" where
  "init_totals validMembers = foldl (\<lambda>totalSpent member. prop_assign totalSpent member (Fin 0)) [] validMembers"

text \<open>
  The body of \<^verbatim>\<open>expenses.forEach\<close>: an expense with a falsy payer, a payer that
  is not a valid member, or a falsy amount is skipped; otherwise
  \<^verbatim>\<open>totalSpent[payer] = (totalSpent[payer] || 0) + Number(amount)\<close>.  A payer
  that is a valid member has an own property, except for the name
  \<^verbatim>\<open>__proto__\<close>, whose assignment has no effect.
\<close>

definition add_expense :: "string list \<Rightarrow> obj \<Rightarrow> expense \<Rightarrow> obj" where
  "add_expense validMembers totalSpent e =
     (case payer e of
        JStr p \<Rightarrow>
          if \<not> to_boolean (payer e) \<or> p \<notin> set validMembers \<or> \<not> to_boolean (amount e)
          then totalSpent
          else (case map_of totalSpent p of
                  Some t \<Rightarrow>
                    prop_assign totalSpent p
                      (jadd (if to_boolean (JNum t) then t else Fin 0) (to_number (amount e)))
                | None \<Rightarrow> totalSpent)
      | _ \<Rightarrow> totalSpent)"

text \<open>Step 3: \<^verbatim>\<open>balances[member] = totalSpent[member] - fairSharePerPerson\<close>.\<close>

definition compute_balances :: "string list \<Rightarrow> obj \<Rightarrow> jsnum \<Rightarrow> obj" where
  "compute_balances validMembers totalSpent fairSharePerPerson =
     foldl (\<lambda>balances member.
              prop_assign balances member (jsub (prop_number totalSpent member) fairSharePerPerson))
       [] validMembers"

text \<open>Step 4: the creditors and the debtors, in the order of \<^verbatim>\<open>Object.keys(balances)\<close>.\<close>

definition to_party :: "string \<times> jsnum \<Rightarrow> party" where
  "to_party kv = \<lparr>name = fst kv, balance = snd kv\<rparr>"

definition creditors_of :: "obj \<Rightarrow> party list" where
  "creditors_of balances =
     map to_party (filter (\<lambda>(member, b). jlt (Fin 0) b) (own_entries balances))"

definition debtors_of :: "obj \<Rightarrow> party list" where
  "debtors_of balances =
     map to_party
       (filter (\<lambda>(member, b). \<not> jlt (Fin 0) b \<and> jlt b (Fin 0)) (own_entries balances))"

text \<open>
  \<^verbatim>\<open>Array.prototype.sort\<close> with a comparison function is a stable sort: \<open>a\<close>
  goes after \<open>b\<close> only when \<open>cmp a b > 0\<close>; a \<^verbatim>\<open>NaN\<close> result counts as \<open>0\<close>.
\<close>

fun insert_sorted :: "('a \<Rightarrow> 'a \<Rightarrow> jsnum) \<Rightarrow> 'a \<Rightarrow> 'a list \<Rightarrow> 'a list" where
  "insert_sorted cmp a [] = [a]"
| "insert_sorted cmp a (b # bs) =
     (if jlt (Fin 0) (cmp a b) then b # insert_sorted cmp a bs else a # b # bs)"

definition array_sort :: "('a \<Rightarrow> 'a \<Rightarrow> jsnum) \<Rightarrow> 'a list \<Rightarrow> 'a list" where
  "array_sort cmp xs = foldr (insert_sorted cmp) xs []"

definition sort_creditors :: "party list \<Rightarrow> party list" where
  "sort_creditors = array_sort (\<lambda>a b. jsub (balance b) (balance a))"

definition sort_debtors :: "party list \<Rightarrow> party list" where
  "sort_debtors = array_sort (\<lambda>a b. jsub (balance a) (balance b))"

text \<open>\<^verbatim>\<open>Math.round(amount * 100) / 100\<close>\<close>

definition round_2 :: "jsnum \<Rightarrow> jsnum" where
  "round_2 a = jdiv (Math_round (jmul a lit_100)) lit_100"

text \<open>
  One pass through the body of the \<^verbatim>\<open>while\<close> loop, on non-empty lists: the
  head creditor and the head debtor settle the rounded amount, a transaction
  is pushed when the amount is positive, both running balances are updated,
  and a head whose balance is below \<open>0.01\<close> in absolute value is shifted out.
\<close>

definition settle_step ::
  "party \<Rightarrow> party list \<Rightarrow> party \<Rightarrow> party list \<Rightarrow> transaction list
     \<Rightarrow> party list \<times> party list \<times> transaction list" where
  "settle_step creditor crest debtor drest transactions =
     (let amount = round_2 (Math_min (balance creditor) (jneg (balance debtor)));
          transactions' =
            (if jlt (Fin 0) amount
             then transactions @
                    [\<lparr>tx_from = name debtor, tx_to = name creditor, tx_amount = toFixed_2 amount\<rparr>]
             else transactions);
          creditor' = creditor\<lparr>balance := jsub (balance creditor) amount\<rparr>;
          debtor' = debtor\<lparr>balance := jadd (balance debtor) amount\<rparr>;
          creditors' =
            (if jlt (Math_abs (balance creditor')) lit_0_01 then crest else creditor' # crest);
          debtors' =
            (if jlt (Math_abs (balance debtor')) lit_0_01 then drest else debtor' # drest)
      in (creditors', debtors', transactions'))"

text \<open>
  The loop \<^verbatim>\<open>while (creditors.length > 0 && debtors.length > 0)\<close>.  The result
  \<open>None\<close> stands for a loop that never ends.
\<close>

partial_function (option) settle ::
  "party list \<Rightarrow> party list \<Rightarrow> transaction list \<Rightarrow> transaction list option" where
  "settle creditors debtors transactions =
     (case creditors of
        [] \<Rightarrow> Some transactions
      | creditor # crest \<Rightarrow>
          (case debtors of
             [] \<Rightarrow> Some transactions
           | debtor # drest \<Rightarrow>
               (case settle_step creditor crest debtor drest transactions of
                  (creditors', debtors', transactions') \<Rightarrow>
                    settle creditors' debtors' transactions')))"

declare settle.simps [code]

text \<open>Steps 1 and 2: the totals per payer and their sum.\<close>

definition total_spent :: "expense list \<Rightarrow> string list \<Rightarrow> obj" where
  "total_spent expenses validMembers =
     foldl (add_expense validMembers) (init_totals validMembers) expenses"

definition total_expenses :: "obj \<Rightarrow> jsnum" where
  "total_expenses totalSpent = foldl jadd (Fin 0) (Object_values totalSpent)"

text \<open>
  Steps 2 and 3.  \<open>balances_for expenses validMembers n\<close> divides the total
  by \<open>n\<close>; the function divides by \<^verbatim>\<open>validMembers.length\<close>.
\<close>

definition balances_for :: "expense list \<Rightarrow> string list \<Rightarrow> nat \<Rightarrow> obj" where
  "balances_for expenses validMembers n =
     (let totalSpent = total_spent expenses validMembers;
          totalExpenses = total_expenses totalSpent;
          fairSharePerPerson = jdiv totalExpenses (Fin (of_nat n))
      in compute_balances validMembers totalSpent fairSharePerPerson)"

definition balances_of :: "expense list \<Rightarrow> string list \<Rightarrow> obj" where
  "balances_of expenses validMembers = balances_for expenses validMembers (length validMembers)"

text \<open>Step 4: classify, sort, run the loop.\<close>

definition settle_balances :: "obj \<Rightarrow> transaction list option" where
  "settle_balances balances =
     (let creditors = sort_creditors (creditors_of balances);
          debtors = sort_debtors (debtors_of balances)
      in settle creditors debtors [])"

definition settle_valid :: "expense list \<Rightarrow> string list \<Rightarrow> transaction list option" where
  "settle_valid expenses validMembers = settle_balances (balances_of expenses validMembers)"

text \<open>
  \<^verbatim>\<open>calculateExpenseSplit(expenses, members)\<close>.  An argument that is \<^verbatim>\<open>null\<close> or
  \<^verbatim>\<open>undefined\<close> is \<open>None\<close>.
\<close>

definition calculateExpenseSplit ::
  "expense list option \<Rightarrow> string list option \<Rightarrow> transaction list option" where
  "calculateExpenseSplit expenses members =
     (case expenses of
        None \<Rightarrow> Some []
      | Some es \<Rightarrow>
          if es = [] then Some []
          else (case members of
                  None \<Rightarrow> Some []
                | Some ms \<Rightarrow>
                    if ms = [] then Some []
                    else let validMembers = filter valid_member ms
                         in if validMembers = [] then Some []
                            else settle_valid es validMembers))"

text \<open>
  Notions used to state the properties.  \<open>valid_members\<close> is the list
  \<^verbatim>\<open>validMembers\<close> of a call (empty when \<^verbatim>\<open>members\<close> is \<^verbatim>\<open>null\<close>), and
  \<open>payer_matches\<close> says that the payer of an expense is one of these names.
\<close>

definition valid_members :: "string list option \<Rightarrow> string list" where
  "valid_members members = (case members of None \<Rightarrow> [] | Some ms \<Rightarrow> filter valid_member ms)"

definition payer_matches :: "string list \<Rightarrow> expense \<Rightarrow> bool" where
  "payer_matches validMembers e = (case payer e of JStr p \<Rightarrow> p \<in> set validMembers | _ \<Rightarrow> False)"

text \<open>
  A balance is moderate when it is finite and at most \<open>2 ^ 43\<close> (about
  \<open>8.8 * 10 ^ 12\<close>) in absolute value.  In this range the rounding errors of
  \<^verbatim>\<open>Math.round(amount * 100) / 100\<close> stay far below half a cent.
\<close>

definition moderate :: "jsnum \<Rightarrow> bool" where
  "moderate v = (case v of Fin q \<Rightarrow> \<bar>q\<bar> \<le> 2 ^ 43 | _ \<Rightarrow> False)"

text \<open>
  The creditors and the debtors of a call: the members with a positive and
  with a negative balance, before sorting.
\<close>

definition initial_creditors :: "expense list \<Rightarrow> string list option \<Rightarrow> party list" where
  "initial_creditors expenses members = creditors_of (balances_of expenses (valid_members members))"

definition initial_debtors :: "expense list \<Rightarrow> string list option \<Rightarrow> party list" where
  "initial_debtors expenses members = debtors_of (balances_of expenses (valid_members members))"



text \<open>
  Conservation.  The amount of a transaction is the number that its string
  converts to.  \<open>credited out m\<close> is the exact sum of the amounts that the
  member \<open>m\<close> receives, \<open>debited out m\<close> is the exact sum of the amounts
  that \<open>m\<close> pays, and a creditor or debtor is conserved when this sum is
  within \<open>0.01\<close> times the number of its transactions of its initial balance.
\<close>

definition amount_of :: "transaction \<Rightarrow> rat" where
  "amount_of t = (case string_to_number (tx_amount t) of Fin q \<Rightarrow> q | _ \<Rightarrow> 0)"

definition credited :: "transaction list \<Rightarrow> string \<Rightarrow> rat" where
  "credited out m = sum_list (map amount_of (filter (\<lambda>t. tx_to t = m) out))"

definition debited :: "transaction list \<Rightarrow> string \<Rightarrow> rat" where
  "debited out m = sum_list (map amount_of (filter (\<lambda>t. tx_from t = m) out))"

definition conserved_creditor :: "transaction list \<Rightarrow> party \<Rightarrow> bool" where
  "conserved_creditor out p =
     (case balance p of
        Fin b \<Rightarrow> \<bar>credited out (name p) - b\<bar>
                   \<le> 1 / 100 * of_nat (length (filter (\<lambda>t. tx_to t = name p) out))
      | _ \<Rightarrow> False)"

definition conserved_debtor :: "transaction list \<Rightarrow> party \<Rightarrow> bool" where
  "conserved_debtor out p =
     (case balance p of
        Fin b \<Rightarrow> \<bar>debited out (name p) + b\<bar>
                   \<le> 1 / 100 * of_nat (length (filter (\<lambda>t. tx_from t = name p) out))
      | _ \<Rightarrow> False)"

text \<open>
  The running balance of a creditor or debtor, recomputed from the
  transactions of a result as the loop computes it: every amount received
  is subtracted from a creditor's balance, every amount paid is added to a
  debtor's balance, in binary64 arithmetic and in the order of the result.
  A balance is settled when its absolute value is below the literal \<open>0.01\<close>,
  the test under which the loop drops a creditor or debtor.
\<close>

definition replay_creditor :: "transaction list \<Rightarrow> party \<Rightarrow> jsnum" where
  "replay_creditor out p =
     foldl (\<lambda>b t. if tx_to t = name p then jsub b (string_to_number (tx_amount t)) else b)
       (balance p) out"

definition replay_debtor :: "transaction list \<Rightarrow> party \<Rightarrow> jsnum" where
  "replay_debtor out p =
     foldl (\<lambda>b t. if tx_from t = name p then jadd b (string_to_number (tx_amount t)) else b)
       (balance p) out"

definition settled :: "jsnum \<Rightarrow> bool" where
  "settled b = jlt (Math_abs b) lit_0_01"

section \<open>Facts about binary64 rounding\<close>

lemma pow2_powi: "pow2 k = 2 powi k"
  by (simp add: pow2_def power_int_def inverse_eq_divide power_one_over)

lemma pow2_pos [simp]: "0 < pow2 k"
  by (simp add: pow2_powi)

lemma pow2_nonzero [simp]: "pow2 k \<noteq> 0"
  by (simp add: pow2_powi)

lemma pow2_not_le_0 [simp]: "\<not> pow2 k \<le> 0"
  by (simp add: not_le)

lemma pow2_not_less_0 [simp]: "\<not> pow2 k < 0"
  by (simp add: not_less less_imp_le)

lemma pow2_add: "pow2 (a + b) = pow2 a * pow2 b"
  by (simp add: pow2_powi power_int_add)

lemma pow2_diff: "pow2 (a - b) = pow2 a / pow2 b"
  by (simp add: pow2_powi power_int_diff)

lemma pow2_mono: "a \<le> b \<Longrightarrow> pow2 a \<le> pow2 b"
  by (simp add: pow2_powi power_int_increasing)

lemma pow2_strict_mono: "a < b \<Longrightarrow> pow2 a < pow2 b"
  by (simp add: pow2_powi power_int_strict_increasing)

lemma pow2_less_iff: "pow2 a < pow2 b \<longleftrightarrow> a < b"
  by (metis pow2_strict_mono linorder_less_linear order_less_imp_triv)

lemma pow2_le_iff: "pow2 a \<le> pow2 b \<longleftrightarrow> a \<le> b"
  by (metis pow2_less_iff linorder_not_less)

lemma pow2_nat: "0 \<le> k \<Longrightarrow> pow2 k = 2 ^ nat k"
  by (simp add: pow2_def)

lemma pow2_1: "pow2 1 = 2"
  by (simp add: pow2_def)

lemma pow2_Suc: "pow2 (k + 1) = 2 * pow2 k"
  by (simp add: pow2_add pow2_1)

lemma ilog2_bounds:
  assumes "0 < x"
  shows "pow2 (ilog2 x) \<le> x" and "x < pow2 (ilog2 x + 1)"
proof -
  obtain p q where pq: "quotient_of x = (p, q)"
    by (cases "quotient_of x")
  have q: "0 < q"
    using quotient_of_denom_pos [OF pq] .
  have x: "x = of_int p / of_int q"
    using quotient_of_div [OF pq] .
  have p: "0 < p"
    using assms q by (simp add: x zero_less_divide_iff)
  define d where "d = bitlen p - bitlen q"
  have bp: "1 \<le> bitlen p" and bq: "1 \<le> bitlen q"
    using p q bitlen_eq_zero_iff [of p] bitlen_eq_zero_iff [of q] bitlen_nonneg [of p] bitlen_nonneg [of q]
    by linarith+
  have p_lo: "pow2 (bitlen p - 1) \<le> of_int p"
  proof -
    have "(2::int) ^ nat (bitlen p - 1) \<le> p"
      using bitlen_bounds [OF p] by simp
    then have "(of_int ((2::int) ^ nat (bitlen p - 1)) :: rat) \<le> of_int p"
      by (simp only: of_int_le_iff)
    then show ?thesis
      using bp by (simp add: pow2_nat)
  qed
  have p_hi: "of_int p < pow2 (bitlen p)"
  proof -
    have "p < (2::int) ^ nat (bitlen p)"
      using bitlen_bounds [OF p] by simp
    then have "(of_int p :: rat) < of_int ((2::int) ^ nat (bitlen p))"
      by (simp only: of_int_less_iff)
    then show ?thesis
      using bp by (simp add: pow2_nat)
  qed
  have q_lo: "pow2 (bitlen q - 1) \<le> of_int q"
  proof -
    have "(2::int) ^ nat (bitlen q - 1) \<le> q"
      using bitlen_bounds [OF q] by simp
    then have "(of_int ((2::int) ^ nat (bitlen q - 1)) :: rat) \<le> of_int q"
      by (simp only: of_int_le_iff)
    then show ?thesis
      using bq by (simp add: pow2_nat)
  qed
  have q_hi: "of_int q < pow2 (bitlen q)"
  proof -
    have "q < (2::int) ^ nat (bitlen q)"
      using bitlen_bounds [OF q] by simp
    then have "(of_int q :: rat) < of_int ((2::int) ^ nat (bitlen q))"
      by (simp only: of_int_less_iff)
    then show ?thesis
      using bq by (simp add: pow2_nat)
  qed
  have qr: "(0::rat) < of_int q"
    using q by simp
  have lo: "pow2 (d - 1) \<le> x"
  proof -
    have "pow2 (d - 1) * of_int q \<le> pow2 (d - 1) * pow2 (bitlen q)"
      using q_hi by (simp add: mult_left_mono less_imp_le)
    also have "\<dots> = pow2 (bitlen p - 1)"
      by (simp add: d_def pow2_add [symmetric])
    also have "\<dots> \<le> of_int p"
      by (rule p_lo)
    finally show ?thesis
      using qr by (simp add: x pos_le_divide_eq)
  qed
  have hi: "x < pow2 (d + 1)"
  proof -
    have "of_int p < pow2 (bitlen p)"
      by (rule p_hi)
    also have "\<dots> = pow2 (d + 1) * pow2 (bitlen q - 1)"
      by (simp add: d_def pow2_add [symmetric])
    also have "\<dots> \<le> pow2 (d + 1) * of_int q"
      using q_lo by (simp add: mult_left_mono)
    finally show ?thesis
      using qr by (simp add: x pos_divide_less_eq)
  qed
  have il: "ilog2 x = (if pow2 d \<le> x then d else d - 1)"
    by (simp add: ilog2_def pq d_def Let_def)
  show "pow2 (ilog2 x) \<le> x"
    using lo by (simp add: il)
  show "x < pow2 (ilog2 x + 1)"
    using hi by (auto simp: il not_le)
qed

lemma ilog2_unique:
  assumes "pow2 e \<le> x" and "x < pow2 (e + 1)"
  shows "ilog2 x = e"
proof -
  have x: "0 < x"
    using assms(1) pow2_pos [of e] by linarith
  have "pow2 (ilog2 x) < pow2 (e + 1)"
    using ilog2_bounds(1) [OF x] assms(2) by linarith
  then have a: "ilog2 x < e + 1"
    by (simp add: pow2_less_iff)
  have "pow2 e < pow2 (ilog2 x + 1)"
    using ilog2_bounds(2) [OF x] assms(1) by linarith
  then have "e < ilog2 x + 1"
    by (simp add: pow2_less_iff)
  with a show ?thesis
    by linarith
qed


lemma rhe_cases:
  obtains (down) "round_half_even y = \<lfloor>y\<rfloor>" and "y - of_int \<lfloor>y\<rfloor> \<le> 1 / 2"
        | (up) "round_half_even y = \<lfloor>y\<rfloor> + 1" and "1 / 2 \<le> y - of_int \<lfloor>y\<rfloor>"
  unfolding round_half_even_def Let_def
  by (cases "y - of_int \<lfloor>y\<rfloor> < 1 / 2"; cases "1 / 2 < y - of_int \<lfloor>y\<rfloor>"; cases "even \<lfloor>y\<rfloor>")
    (simp_all add: not_less)

lemma rhe_error: "\<bar>of_int (round_half_even y) - y\<bar> \<le> 1 / 2"
proof (cases y rule: rhe_cases)
  case down
  have "of_int \<lfloor>y\<rfloor> \<le> y"
    by simp
  with down show ?thesis
    by (simp add: abs_le_iff)
next
  case up
  have "y < of_int \<lfloor>y\<rfloor> + 1"
    by linarith
  with up show ?thesis
    by (simp add: abs_le_iff)
qed

lemma rhe_cert:
  assumes "\<bar>y - of_int n\<bar> < 1 / 2"
  shows "round_half_even y = n"
proof (cases "of_int n \<le> y")
  case True
  then have f: "\<lfloor>y\<rfloor> = n"
    using assms by (intro floor_unique) (simp_all add: abs_less_iff)
  have "y - of_int \<lfloor>y\<rfloor> < 1 / 2"
    using assms True by (simp add: f abs_less_iff)
  then show ?thesis
    by (simp add: round_half_even_def Let_def f)
next
  case False
  then have f: "\<lfloor>y\<rfloor> = n - 1"
    using assms by (intro floor_unique) (simp_all add: abs_less_iff)
  have "1 / 2 < y - of_int \<lfloor>y\<rfloor>"
    using assms False by (simp add: f abs_less_iff)
  then show ?thesis
    by (simp add: round_half_even_def Let_def f)
qed

lemma rhe_of_int: "round_half_even (of_int n) = n"
  by (simp add: round_half_even_def)

lemma rhe_lower: "\<lfloor>y\<rfloor> \<le> round_half_even y"
  by (cases y rule: rhe_cases) simp_all

lemma rhe_upper: "round_half_even y \<le> \<lfloor>y\<rfloor> + 1"
  by (cases y rule: rhe_cases) simp_all

lemma rhe_mono:
  assumes "y \<le> z"
  shows "round_half_even y \<le> round_half_even z"
proof (cases "\<lfloor>y\<rfloor> = \<lfloor>z\<rfloor>")
  case False
  then have "\<lfloor>y\<rfloor> + 1 \<le> \<lfloor>z\<rfloor>"
    using floor_mono [OF assms] by linarith
  then show ?thesis
    using rhe_upper [of y] rhe_lower [of z] by linarith
next
  case True
  have r: "y - of_int \<lfloor>y\<rfloor> \<le> z - of_int \<lfloor>z\<rfloor>"
    using assms by (simp add: True)
  show ?thesis
    unfolding round_half_even_def Let_def
    using r by (simp add: True)
qed

lemma rhe_minus: "round_half_even (- y) = - round_half_even y"
proof (cases "y = of_int \<lfloor>y\<rfloor>")
  case True
  then obtain n where "y = of_int n"
    by blast
  then show ?thesis
    by (simp add: rhe_of_int flip: of_int_minus)
next
  case False
  have fl: "of_int \<lfloor>y\<rfloor> < y"
    using False by (metis floor_less_iff less_le_not_le linorder_le_less_linear of_int_floor_le order_antisym)
  have f: "\<lfloor>- y\<rfloor> = - \<lfloor>y\<rfloor> - 1"
    using fl by (intro floor_unique) (simp_all, linarith+)
  have e: "even (- \<lfloor>y\<rfloor> - 1) \<longleftrightarrow> odd \<lfloor>y\<rfloor>"
    by simp
  show ?thesis
    unfolding round_half_even_def Let_def f e
    using fl by (auto simp: not_less) 
qed


lemma quantum_pos [simp]: "0 < quantum x"
  by (simp add: quantum_def)

lemma quantum_minus [simp]: "quantum (- x) = quantum x"
  by (simp add: quantum_def)

lemma quantum_eq:
  assumes "pow2 e \<le> \<bar>x\<bar>" and "\<bar>x\<bar> < pow2 (e + 1)"
  shows "quantum x = pow2 (max e (- 1022) - 52)"
  by (simp add: quantum_def ilog2_unique [OF assms])

lemma ru_0 [simp]: "round_unbounded 0 = 0"
  by (simp add: round_unbounded_def)

lemma ru_minus: "round_unbounded (- x) = - round_unbounded x"
  by (simp add: round_unbounded_def rhe_minus)

lemma ru_error: "\<bar>round_unbounded x - x\<bar> \<le> quantum x / 2"
proof (cases "x = 0")
  case True
  then show ?thesis
    by (simp add: less_imp_le)
next
  case False
  define u where "u = quantum x"
  have u: "0 < u"
    by (simp add: u_def)
  have "\<bar>of_int (round_half_even (x / u)) - x / u\<bar> * u \<le> 1 / 2 * u"
    using rhe_error [of "x / u"] u by (intro mult_right_mono) simp_all
  moreover have "\<bar>of_int (round_half_even (x / u)) - x / u\<bar> * u
      = \<bar>of_int (round_half_even (x / u)) * u - x\<bar>"
  proof -
    have "\<bar>of_int (round_half_even (x / u)) - x / u\<bar> * u
        = \<bar>(of_int (round_half_even (x / u)) - x / u) * u\<bar>"
      using u by (simp add: abs_mult)
    also have "(of_int (round_half_even (x / u)) - x / u) * u
        = of_int (round_half_even (x / u)) * u - x"
      using u by (simp add: left_diff_distrib)
    finally show ?thesis .
  qed
  ultimately have "\<bar>of_int (round_half_even (x / u)) * u - x\<bar> \<le> 1 / 2 * u"
    by (simp only:)
  then show ?thesis
    using False by (simp add: round_unbounded_def u_def)
qed

lemma ru_cert:
  assumes "x \<noteq> 0" and "pow2 e \<le> \<bar>x\<bar>" and "\<bar>x\<bar> < pow2 (e + 1)"
    and "\<bar>x / pow2 (max e (- 1022) - 52) - of_int n\<bar> < 1 / 2"
  shows "round_unbounded x = of_int n * pow2 (max e (- 1022) - 52)"
  using assms(1) by (simp add: round_unbounded_def quantum_eq [OF assms(2,3)] rhe_cert [OF assms(4)])

lemma fl_finite:
  assumes "\<bar>round_unbounded x\<bar> < pow2 1024"
  shows "fl x = Fin (round_unbounded x)"
  using assms by (simp add: fl_def Let_def abs_less_iff not_le)

lemma fl_minus: "fl (- x) = jneg (fl x)"
  using pow2_pos [of 1024] by (auto simp add: fl_def Let_def ru_minus simp del: pow2_pos)

lemma ru_exact:
  assumes n: "\<bar>n\<bar> < 2 ^ 53" and k: "- 1074 \<le> k"
  shows "round_unbounded (of_int n * pow2 k) = of_int n * pow2 k"
proof (cases "n = 0")
  case True
  then show ?thesis
    by simp
next
  case False
  define x where "x = (of_int n :: rat) * pow2 k"
  have x0: "x \<noteq> 0"
    using False pow2_pos [of k] by (simp add: x_def)
  have ax: "0 < \<bar>x\<bar>"
    using x0 by simp
  define e where "e = ilog2 \<bar>x\<bar>"
  have "\<bar>of_int n :: rat\<bar> < 2 ^ 53"
    using n by (metis of_int_abs of_int_less_numeral_power_cancel_iff)
  then have "\<bar>x\<bar> < pow2 53 * pow2 k"
    using pow2_pos [of k] by (simp add: x_def abs_mult pow2_def)
  then have "\<bar>x\<bar> < pow2 (53 + k)"
    by (simp add: pow2_add)
  then have "pow2 e < pow2 (53 + k)"
    using ilog2_bounds(1) [OF ax] by (simp add: e_def)
  then have e: "e - 52 \<le> k"
    by (simp add: pow2_less_iff)
  define E where "E = max e (- 1022) - 52"
  have E: "E \<le> k"
    using e k by (simp add: E_def)
  have q: "quantum x = pow2 E"
    by (simp add: quantum_def E_def e_def)
  have "x / pow2 E = of_int n * pow2 (k - E)"
    by (simp add: x_def pow2_diff)
  also have "pow2 (k - E) = of_int (2 ^ nat (k - E))"
    using E by (simp add: pow2_nat)
  finally have "x / pow2 E = of_int (n * 2 ^ nat (k - E))"
    by simp
  then have "round_half_even (x / pow2 E) = n * 2 ^ nat (k - E)"
    by (simp only: rhe_of_int)
  then have "of_int (round_half_even (x / pow2 E)) * pow2 E = of_int n * (pow2 (k - E) * pow2 E)"
    using E by (simp add: pow2_nat)
  also have "pow2 (k - E) * pow2 E = pow2 k"
    by (simp add: pow2_add [symmetric])
  finally show ?thesis
    using x0 by (simp add: round_unbounded_def q flip: x_def)
qed

lemma fl_exact:
  assumes n: "\<bar>n\<bar> < 2 ^ 53" and k: "- 1074 \<le> k" and k': "k \<le> 971"
  shows "fl (of_int n * pow2 k) = Fin (of_int n * pow2 k)"
proof -
  have "\<bar>of_int n :: rat\<bar> < 2 ^ 53"
    using n by (metis of_int_abs of_int_less_numeral_power_cancel_iff)
  then have "\<bar>(of_int n :: rat) * pow2 k\<bar> < pow2 53 * pow2 k"
    using pow2_pos [of k] by (simp add: abs_mult pow2_def)
  also have "\<dots> = pow2 (53 + k)"
    by (simp add: pow2_add)
  also have "\<dots> \<le> pow2 1024"
    using k' by (simp add: pow2_le_iff)
  finally show ?thesis
    by (simp add: fl_finite ru_exact [OF n k])
qed

lemma fl_of_int:
  assumes "\<bar>n\<bar> < 2 ^ 53"
  shows "fl (of_int n) = Fin (of_int n)"
  using fl_exact [OF assms, of 0] by (simp add: pow2_def)

lemma fl_numeral [simp]:
  "numeral w < (2::int) ^ 53 \<Longrightarrow> fl (numeral w) = Fin (numeral w)"
  "numeral w < (2::int) ^ 53 \<Longrightarrow> fl (- numeral w) = Fin (- numeral w)"
  using fl_of_int [of "numeral w"] fl_of_int [of "- numeral w"] by simp_all

lemma fl_0 [simp]: "fl 0 = Fin 0"
  by (simp add: fl_def)

lemma fl_1 [simp]: "fl 1 = Fin 1"
  using fl_of_int [of 1] by simp

subsection \<open>Monotonicity and relative error\<close>

lemma rhe_nonneg: "0 \<le> y \<Longrightarrow> 0 \<le> round_half_even y"
  using rhe_mono [of 0 y] rhe_of_int [of 0] by simp

lemma ru_nonneg: "0 \<le> x \<Longrightarrow> 0 \<le> round_unbounded x"
  by (simp add: round_unbounded_def rhe_nonneg less_imp_le)

lemma ru_nonpos: "x \<le> 0 \<Longrightarrow> round_unbounded x \<le> 0"
  using ru_nonneg [of "- x"] by (simp add: ru_minus)

lemma ilog2_mono:
  assumes "0 < x" and "x \<le> y"
  shows "ilog2 x \<le> ilog2 y"
proof -
  have y: "0 < y"
    using assms by linarith
  have "pow2 (ilog2 x) < pow2 (ilog2 y + 1)"
    using ilog2_bounds(1) [OF assms(1)] ilog2_bounds(2) [OF y] assms(2) by linarith
  then show ?thesis
    by (simp add: pow2_less_iff)
qed

lemma pow2_52: "pow2 52 = of_int (2 ^ 52)"
  by (simp add: pow2_def)

lemma ru_upper:
  assumes "0 < x"
  shows "round_unbounded x \<le> pow2 (ilog2 x + 1)"
proof -
  define e where "e = ilog2 x"
  define E where "E = max e (- 1022) - 52"
  have q: "quantum x = pow2 E"
    using assms by (simp add: quantum_def E_def e_def)
  show ?thesis
  proof (cases "0 \<le> e + 1 - E")
    case True
    have "x / pow2 E \<le> pow2 (e + 1) / pow2 E"
      using ilog2_bounds(2) [OF assms] by (simp add: e_def divide_right_mono less_imp_le)
    also have "\<dots> = pow2 (e + 1 - E)"
      by (simp add: pow2_diff [symmetric])
    also have "\<dots> = of_int (2 ^ nat (e + 1 - E))"
      using True by (simp add: pow2_nat)
    finally have "round_half_even (x / pow2 E) \<le> 2 ^ nat (e + 1 - E)"
      using rhe_mono rhe_of_int by metis
    then have "(of_int (round_half_even (x / pow2 E)) :: rat) \<le> of_int (2 ^ nat (e + 1 - E))"
      by (simp only: of_int_le_iff)
    then have "of_int (round_half_even (x / pow2 E)) * pow2 E \<le> of_int (2 ^ nat (e + 1 - E)) * pow2 E"
      by (intro mult_right_mono) (simp_all add: less_imp_le)
    also have "of_int (2 ^ nat (e + 1 - E)) * pow2 E = pow2 (e + 1 - E) * pow2 E"
      using True by (simp add: pow2_nat)
    also have "\<dots> = pow2 (e + 1)"
      by (simp add: pow2_add [symmetric])
    finally show ?thesis
      using assms by (simp add: round_unbounded_def q e_def)
  next
    case False
    then have "e + 2 \<le> E"
      by simp
    then have "pow2 (e + 2) \<le> pow2 E"
      by (simp add: pow2_le_iff)
    moreover have "pow2 (e + 2) = pow2 (e + 1) * 2"
      using pow2_Suc [of "e + 1"] by (simp add: algebra_simps)
    ultimately have "pow2 (e + 1) * 2 \<le> pow2 E"
      by simp
    then have "x * 2 < pow2 E"
      using ilog2_bounds(2) [OF assms] by (simp add: e_def)
    then have "x / pow2 E < 1 / 2"
      by (simp add: pos_divide_less_eq)
    moreover have "0 \<le> x / pow2 E"
      using assms by (simp add: less_imp_le)
    ultimately have "\<bar>x / pow2 E - of_int 0\<bar> < 1 / 2"
      by (simp only: of_int_0 diff_zero abs_of_nonneg)
    then have "round_half_even (x / pow2 E) = 0"
      by (rule rhe_cert)
    then show ?thesis
      using assms by (simp add: round_unbounded_def q less_imp_le)
  qed
qed

lemma ru_lower:
  assumes "0 < x" and "- 1022 \<le> ilog2 x"
  shows "pow2 (ilog2 x) \<le> round_unbounded x"
proof -
  define e where "e = ilog2 x"
  define E where "E = e - 52"
  have q: "quantum x = pow2 E"
    using assms by (simp add: quantum_def E_def e_def)
  have "pow2 e / pow2 E \<le> x / pow2 E"
    using ilog2_bounds(1) [OF assms(1)] by (simp add: e_def divide_right_mono less_imp_le)
  moreover have "pow2 e / pow2 E = pow2 52"
    by (simp add: pow2_diff [symmetric] E_def)
  ultimately have "round_half_even (of_int (2 ^ 52)) \<le> round_half_even (x / pow2 E)"
    by (intro rhe_mono) (simp add: pow2_52)
  then have "2 ^ 52 \<le> round_half_even (x / pow2 E)"
    by (simp only: rhe_of_int)
  then have "(of_int (2 ^ 52) :: rat) \<le> of_int (round_half_even (x / pow2 E))"
    by (simp only: of_int_le_iff)
  then have le: "of_int (2 ^ 52) * pow2 E \<le> of_int (round_half_even (x / pow2 E)) * pow2 E"
    by (intro mult_right_mono) (simp_all add: less_imp_le)
  have r: "round_unbounded x = of_int (round_half_even (x / pow2 E)) * pow2 E"
    using assms by (simp add: round_unbounded_def q)
  have "pow2 e = pow2 52 * pow2 E"
    by (simp add: pow2_add [symmetric] E_def)
  also have "\<dots> = of_int (2 ^ 52) * pow2 E"
    by (simp only: pow2_52)
  also note le
  finally show ?thesis
    by (simp only: r e_def)
qed

lemma ru_mono_pos:
  assumes "0 < x" and "x \<le> y"
  shows "round_unbounded x \<le> round_unbounded y"
proof -
  have y: "0 < y"
    using assms by linarith
  have e: "ilog2 x \<le> ilog2 y"
    using assms by (rule ilog2_mono)
  show ?thesis
  proof (cases "max (ilog2 x) (- 1022) = max (ilog2 y) (- 1022)")
    case True
    then have q: "quantum y = quantum x"
      using assms y by (simp add: quantum_def)
    have "x / quantum x \<le> y / quantum x"
      using assms by (simp add: divide_right_mono less_imp_le)
    then have "round_half_even (x / quantum x) \<le> round_half_even (y / quantum x)"
      by (rule rhe_mono)
    then have "(of_int (round_half_even (x / quantum x)) :: rat) \<le> of_int (round_half_even (y / quantum x))"
      by (simp only: of_int_le_iff)
    then have "of_int (round_half_even (x / quantum x)) * quantum x
        \<le> of_int (round_half_even (y / quantum x)) * quantum x"
      by (intro mult_right_mono) (simp_all add: less_imp_le)
    then show ?thesis
      using assms y by (simp add: round_unbounded_def q)
  next
    case False
    then have lt: "ilog2 x < ilog2 y" and n: "- 1022 \<le> ilog2 y"
      using e by (simp_all add: max_def split: if_splits)
    have "round_unbounded x \<le> pow2 (ilog2 x + 1)"
      using assms(1) by (rule ru_upper)
    also have "\<dots> \<le> pow2 (ilog2 y)"
      using lt by (simp add: pow2_le_iff)
    also have "\<dots> \<le> round_unbounded y"
      using y n by (rule ru_lower)
    finally show ?thesis .
  qed
qed

lemma ru_mono:
  assumes "x \<le> y"
  shows "round_unbounded x \<le> round_unbounded y"
proof -
  consider "x \<le> 0" "0 \<le> y" | "0 < x" | "y < 0"
    using assms by linarith
  then show ?thesis
  proof cases
    case 1
    then show ?thesis
      using ru_nonpos [of x] ru_nonneg [of y] by linarith
  next
    case 2
    then show ?thesis
      using assms by (rule ru_mono_pos)
  next
    case 3
    then have "round_unbounded (- y) \<le> round_unbounded (- x)"
      using assms by (intro ru_mono_pos) simp_all
    then show ?thesis
      by (simp add: ru_minus)
  qed
qed

lemma ru_rel_error:
  assumes "pow2 (- 1022) \<le> \<bar>x\<bar>"
  shows "\<bar>round_unbounded x - x\<bar> \<le> \<bar>x\<bar> * pow2 (- 53)"
proof -
  have ax: "0 < \<bar>x\<bar>"
    using assms pow2_pos [of "- 1022"] by linarith
  have "pow2 (- 1022) < pow2 (ilog2 \<bar>x\<bar> + 1)"
    using assms ilog2_bounds(2) [OF ax] by linarith
  then have e: "- 1022 \<le> ilog2 \<bar>x\<bar>"
    by (simp add: pow2_less_iff)
  then have "quantum x = pow2 (ilog2 \<bar>x\<bar>) * pow2 (- 52)"
    using pow2_add [of "ilog2 \<bar>x\<bar>" "- 52"] by (simp add: quantum_def)
  also have "\<dots> \<le> \<bar>x\<bar> * pow2 (- 52)"
    using ilog2_bounds(1) [OF ax] by (intro mult_right_mono) (simp_all add: less_imp_le)
  finally have "quantum x / 2 \<le> \<bar>x\<bar> * (pow2 (- 52) / 2)"
    by simp
  moreover have "pow2 (- 52) / 2 = pow2 (- 53)"
    by (simp add: pow2_def)
  ultimately show ?thesis
    using ru_error [of x] by simp
qed

section \<open>Evaluation on concrete inputs\<close>

lemma floor_rat_numeral [simp]:
  "\<lfloor>numeral a / numeral b :: rat\<rfloor> = numeral a div numeral b"
  "\<lfloor>- (numeral a / numeral b) :: rat\<rfloor> = - numeral a div numeral b"
  using floor_divide_of_int_eq [of "numeral a" "numeral b", where ?'a = rat]
    floor_divide_of_int_eq [of "- numeral a" "numeral b", where ?'a = rat]
  by simp_all

lemma nat_digits_numeral [simp]:
  "nat_digits (numeral w) =
     (if numeral w < (10::nat) then [digit_char (numeral w)]
      else nat_digits (numeral w div 10) @ [digit_char (numeral w mod 10)])"
  "nat_digits 0 = [digit_char 0]"
  "nat_digits 1 = [digit_char 1]"
  "nat_digits (Suc 0) = [digit_char 1]"
  by (subst nat_digits.simps, simp)+

lemma char_of_eqI: "of_char c = (n::nat) \<Longrightarrow> char_of n = c"
  by (metis char_of_char)

lemma digit_char_simps [simp]:
  "digit_char 0 = CHR ''0''" "digit_char 1 = CHR ''1''" "digit_char 2 = CHR ''2''"
  "digit_char 3 = CHR ''3''" "digit_char 4 = CHR ''4''" "digit_char 5 = CHR ''5''"
  "digit_char 6 = CHR ''6''" "digit_char 7 = CHR ''7''" "digit_char 8 = CHR ''8''"
  "digit_char 9 = CHR ''9''" "digit_char (Suc 0) = CHR ''1''"
  unfolding digit_char_def by (rule char_of_eqI, simp)+

lemma lit_0_01_eq: "lit_0_01 = Fin (5764607523034235 / 576460752303423488)"
proof -
  have "round_unbounded (1 / 100) = of_int 5764607523034235 * pow2 (max (- 7) (- 1022) - 52)"
    by (rule ru_cert) (simp_all add: pow2_def)
  then have r: "round_unbounded (1 / 100) = 5764607523034235 / 576460752303423488"
    by (simp add: pow2_def)
  show ?thesis
    unfolding lit_0_01_def
    by (subst fl_finite) (simp_all add: r pow2_def)
qed

lemma settle_Cons:
  "settle (creditor # crest) (debtor # drest) transactions =
     (case settle_step creditor crest debtor drest transactions of
        (creditors', debtors', transactions') \<Rightarrow> settle creditors' debtors' transactions')"
  by (subst settle.simps) simp

lemmas eval_defs =
  calculateExpenseSplit_def settle_valid_def settle_balances_def balances_of_def balances_for_def
  total_spent_def init_totals_def
  add_expense_def prop_assign_def valid_member_def trim_def is_ws_def total_expenses_def
  Object_values_def own_entries_def is_array_index_def is_digit_def digit_in_def hex_val_def
  digits_value_def compute_balances_def prop_number_def jsub_def creditors_of_def debtors_of_def
  to_party_def sort_creditors_def sort_debtors_def array_sort_def settle_Cons settle_step_def
  round_2_def Math_min_def lit_100_def lit_0_01_eq fixed_abs_def fixed_2_def Let_def

section \<open>Facts about the settlement function\<close>

lemma trim_empty_iff: "trim s = [] \<longleftrightarrow> (\<forall>c\<in>set s. is_ws c)"
proof
  assume "trim s = []"
  then have "dropWhile is_ws (rev (dropWhile is_ws s)) = []"
    by (simp add: trim_def)
  then have a: "\<forall>c\<in>set (dropWhile is_ws s). is_ws c"
    by (simp add: dropWhile_eq_Nil_conv)
  have "dropWhile is_ws s = []"
  proof (rule ccontr)
    assume n: "dropWhile is_ws s \<noteq> []"
    then have "\<not> is_ws (hd (dropWhile is_ws s))"
      by (rule hd_dropWhile)
    moreover have "hd (dropWhile is_ws s) \<in> set (dropWhile is_ws s)"
      using n by simp
    ultimately show False
      using a by blast
  qed
  then show "\<forall>c\<in>set s. is_ws c"
    by (simp add: dropWhile_eq_Nil_conv)
next
  assume "\<forall>c\<in>set s. is_ws c"
  then show "trim s = []"
    by (auto simp: trim_def dest: set_dropWhileD)
qed

lemma valid_member_iff: "valid_member m \<longleftrightarrow> \<not> blank m"
  by (auto simp: valid_member_def blank_def trim_empty_iff list_all_iff)

lemma settle_Nil [simp]: "settle [] debtors transactions = Some transactions"
  by (simp add: settle.simps)

lemma settle_Nil2 [simp]: "settle creditors [] transactions = Some transactions"
  by (cases creditors) (simp_all add: settle.simps)

subsection \<open>Duplicate names\<close>

lemma prop_update_same: "map_of ps k = Some v \<Longrightarrow> prop_update ps k v = ps"
  by (induct ps) (auto split: if_splits)

lemma map_of_prop_update:
  "map_of (prop_update ps k v) k' = (if k' = k then Some v else map_of ps k')"
  by (induct ps) auto

lemma map_of_prop_assign:
  "map_of (prop_assign ps k v) k' = (if k' = k \<and> k \<noteq> ''__proto__'' then Some v else map_of ps k')"
  by (simp add: prop_assign_def map_of_prop_update)

lemma fold_assign_lookup:
  "k \<in> set ks \<Longrightarrow> k \<noteq> ''__proto__''
   \<Longrightarrow> map_of (foldl (\<lambda>b k. prop_assign b k (f k)) acc ks) k = Some (f k)"
  by (induct ks arbitrary: acc rule: rev_induct) (auto simp: map_of_prop_assign)

lemma fold_assign_dup:
  assumes "m \<in> set xs"
  shows "foldl (\<lambda>b k. prop_assign b k (f k)) acc (xs @ m # ys)
       = foldl (\<lambda>b k. prop_assign b k (f k)) acc (xs @ ys)"
proof -
  have "prop_assign (foldl (\<lambda>b k. prop_assign b k (f k)) acc xs) m (f m)
      = foldl (\<lambda>b k. prop_assign b k (f k)) acc xs"
  proof (cases "m = ''__proto__''")
    case True
    then show ?thesis
      by (simp add: prop_assign_def)
  next
    case False
    then show ?thesis
      using fold_assign_lookup [OF assms False, of f acc]
      by (simp add: prop_assign_def prop_update_same)
  qed
  then show ?thesis
    by simp
qed

lemma add_expense_cong: "set vs = set ws \<Longrightarrow> add_expense vs = add_expense ws"
  by (intro ext) (simp add: add_expense_def split: jsval.splits)

lemma total_spent_dup:
  assumes "m \<in> set xs"
  shows "total_spent es (xs @ m # ys) = total_spent es (xs @ ys)"
proof -
  have "set (xs @ m # ys) = set (xs @ ys)"
    using assms by auto
  then have "add_expense (xs @ m # ys) = add_expense (xs @ ys)"
    by (rule add_expense_cong)
  then show ?thesis
    by (simp only: total_spent_def init_totals_def fold_assign_dup [OF assms])
qed

lemma compute_balances_dup:
  assumes "m \<in> set xs"
  shows "compute_balances (xs @ m # ys) ts fs = compute_balances (xs @ ys) ts fs"
  by (simp only: compute_balances_def fold_assign_dup [OF assms])

lemma balances_dup:
  assumes "m \<in> set xs"
  shows "balances_of es (xs @ m # ys) = balances_for es (xs @ ys) (Suc (length (xs @ ys)))"
  by (simp add: balances_of_def balances_for_def Let_def total_spent_dup [OF assms]
      compute_balances_dup [OF assms])

subsection \<open>Ignored expenses\<close>

lemma add_expense_ignored:
  assumes "\<not> payer_matches validMembers e \<or> \<not> to_boolean (amount e)"
  shows "add_expense validMembers totalSpent e = totalSpent"
  using assms by (auto simp: add_expense_def payer_matches_def split: jsval.splits)

lemma total_spent_ignored:
  assumes "\<not> payer_matches validMembers e \<or> \<not> to_boolean (amount e)"
  shows "total_spent (es1 @ e # es2) validMembers = total_spent (es1 @ es2) validMembers"
  by (simp add: total_spent_def add_expense_ignored [OF assms])

lemma set_prop_update: "set (prop_update ps k v) \<subseteq> insert (k, v) (set ps)"
  by (induct ps) (auto split: if_splits)

lemma fold_assign_values:
  "(k, v) \<in> set (foldl (\<lambda>b k. prop_assign b k (f k)) acc ks)
   \<Longrightarrow> (k, v) \<in> set acc \<or> v = f k"
proof (induct ks arbitrary: acc rule: rev_induct)
  case Nil
  then show ?case
    by simp
next
  case (snoc x xs)
  then show ?case
    using set_prop_update [of "foldl (\<lambda>b k. prop_assign b k (f k)) acc xs" x "f x"]
    by (auto simp: prop_assign_def split: if_splits)
qed

lemma set_own_entries [simp]: "set (own_entries ps) = set ps"
  by (auto simp: own_entries_def)

lemma sum_of_zeros: "\<forall>v\<in>set vs. v = Fin 0 \<Longrightarrow> foldl jadd (Fin 0) vs = Fin 0"
  by (induct vs) simp_all

lemma init_totals_values: "(k, v) \<in> set (init_totals validMembers) \<Longrightarrow> v = Fin 0"
  using fold_assign_values [of k v "\<lambda>_. Fin 0" "[]" validMembers]
  by (simp add: init_totals_def)

lemma total_expenses_init: "total_expenses (init_totals validMembers) = Fin 0"
  unfolding total_expenses_def Object_values_def
  by (rule sum_of_zeros) (auto dest: init_totals_values)

lemma prop_number_init:
  "prop_number (init_totals validMembers) k = Fin 0 \<or> prop_number (init_totals validMembers) k = NaN"
  by (auto simp: prop_number_def split: option.splits dest!: map_of_SomeD init_totals_values)

lemma settle_balances_no_creditors:
  assumes "\<forall>(k, v)\<in>set balances. \<not> jlt (Fin 0) v"
  shows "settle_balances balances = Some []"
proof -
  have "filter (\<lambda>(member, b). jlt (Fin 0) b) (own_entries balances) = []"
    using assms by (auto simp: filter_empty_conv)
  then show ?thesis
    by (simp add: settle_balances_def creditors_of_def sort_creditors_def array_sort_def)
qed

lemma settle_valid_no_expense:
  assumes "validMembers \<noteq> []"
  shows "settle_balances (compute_balances validMembers (init_totals validMembers)
           (jdiv (total_expenses (init_totals validMembers)) (Fin (of_nat (length validMembers)))))
         = Some []"
proof (rule settle_balances_no_creditors, clarify)
  fix k v
  assume kv: "(k, v) \<in> set (compute_balances validMembers (init_totals validMembers)
           (jdiv (total_expenses (init_totals validMembers)) (Fin (of_nat (length validMembers)))))"
    and pos: "jlt (Fin 0) v"
  have fs: "jdiv (total_expenses (init_totals validMembers)) (Fin (of_nat (length validMembers))) = Fin 0"
    using assms by (simp add: total_expenses_init)
  have "v = jsub (prop_number (init_totals validMembers) k) (Fin 0)"
    using kv fold_assign_values [of k v "\<lambda>m. jsub (prop_number (init_totals validMembers) m) (Fin 0)" "[]" validMembers]
    by (simp add: compute_balances_def fs)
  then have "v = Fin 0 \<or> v = NaN"
    using prop_number_init [of validMembers k] by (auto simp: jsub_def)
  with pos show False
    by auto
qed

lemma calc_unfold:
  "calculateExpenseSplit (Some es) members =
     (if es = [] \<or> valid_members members = [] then Some []
      else settle_valid es (valid_members members))"
  by (cases members) (auto simp: calculateExpenseSplit_def valid_members_def Let_def)

subsection \<open>Amounts that convert to NaN\<close>

lemma jadd_NaN_right [simp]: "jadd a NaN = NaN"
  by (cases a) simp_all

lemma jsub_NaN_right [simp]: "jsub a NaN = NaN"
  by (simp add: jsub_def)

lemma jlt_NaN_right [simp]: "jlt a NaN = False"
  by (cases a) simp_all

lemma sum_from_NaN: "foldl jadd NaN vs = NaN"
  by (induct vs) simp_all

lemma sum_with_NaN: "NaN \<in> set vs \<Longrightarrow> foldl jadd acc vs = NaN"
proof (induct vs arbitrary: acc)
  case Nil
  then show ?case
    by simp
next
  case (Cons a vs)
  show ?case
  proof (cases "a = NaN")
    case True
    then show ?thesis
      by (simp add: sum_from_NaN)
  next
    case False
    with Cons(2) have "NaN \<in> set vs"
      by simp
    then show ?thesis
      by (simp add: Cons(1))
  qed
qed

lemma add_expense_poison:
  assumes "payer e = JStr p" and "p \<in> set validMembers" and "p \<noteq> ''__proto__''"
    and "p \<noteq> []" and "to_boolean (amount e)" and "to_number (amount e) = NaN"
    and "map_of totalSpent p = Some t"
  shows "map_of (add_expense validMembers totalSpent e) p = Some NaN"
  using assms by (simp add: add_expense_def map_of_prop_assign)

lemma add_expense_keeps_poison:
  assumes "map_of totalSpent p = Some NaN"
    and "payer e = JStr p \<and> to_boolean (amount e) \<longrightarrow> to_number (amount e) = NaN"
  shows "map_of (add_expense validMembers totalSpent e) p = Some NaN"
  using assms
  by (auto simp: add_expense_def map_of_prop_assign split: jsval.splits option.splits)

lemma fold_keeps_poison:
  assumes "map_of totalSpent p = Some NaN"
    and "\<forall>e\<in>set es. payer e = JStr p \<and> to_boolean (amount e) \<longrightarrow> to_number (amount e) = NaN"
  shows "map_of (foldl (add_expense validMembers) totalSpent es) p = Some NaN"
  using assms by (induct es arbitrary: totalSpent) (simp_all add: add_expense_keeps_poison)

lemma add_expense_keeps_key:
  "map_of totalSpent k \<noteq> None \<Longrightarrow> map_of (add_expense validMembers totalSpent e) k \<noteq> None"
  by (auto simp: add_expense_def map_of_prop_assign split: jsval.splits option.splits)

lemma fold_keeps_key:
  "map_of totalSpent k \<noteq> None \<Longrightarrow> map_of (foldl (add_expense validMembers) totalSpent es) k \<noteq> None"
proof (induct es arbitrary: totalSpent)
  case Nil
  then show ?case
    by simp
next
  case (Cons a es)
  from Cons(2) have "map_of (add_expense validMembers totalSpent a) k \<noteq> None"
    by (rule add_expense_keeps_key)
  then have "map_of (foldl (add_expense validMembers) (add_expense validMembers totalSpent a) es) k \<noteq> None"
    by (rule Cons(1))
  then show ?case
    by simp
qed

lemma init_totals_key:
  "p \<in> set validMembers \<Longrightarrow> p \<noteq> ''__proto__'' \<Longrightarrow> map_of (init_totals validMembers) p = Some (Fin 0)"
  unfolding init_totals_def by (rule fold_assign_lookup)

lemma settle_balances_all_NaN:
  assumes "\<forall>(k, v)\<in>set balances. v = NaN"
  shows "settle_balances balances = Some []"
  by (rule settle_balances_no_creditors) (use assms in auto)

subsection \<open>The loop\<close>

lemma settle_induct [consumes 1, case_names stop step]:
  assumes run: "settle creditors debtors transactions = Some y"
    and stop: "\<And>creditors debtors transactions.
      creditors = [] \<or> debtors = [] \<Longrightarrow> P creditors debtors transactions transactions"
    and step: "\<And>creditor crest debtor drest transactions creditors' debtors' transactions' y.
      settle_step creditor crest debtor drest transactions = (creditors', debtors', transactions')
      \<Longrightarrow> settle creditors' debtors' transactions' = Some y
      \<Longrightarrow> P creditors' debtors' transactions' y
      \<Longrightarrow> P (creditor # crest) (debtor # drest) transactions y"
  shows "P creditors debtors transactions y"
proof -
  have "settle creditors debtors transactions = Some y \<longrightarrow> P creditors debtors transactions y"
  proof (rule settle.raw_induct [OF _ run, where P = "\<lambda>c d t y. settle c d t = Some y \<longrightarrow> P c d t y"])
    fix f creditors debtors transactions y
    assume ih: "\<And>c d t y. f c d t = Some y \<Longrightarrow> settle c d t = Some y \<longrightarrow> P c d t y"
      and body: "(case creditors of [] \<Rightarrow> Some transactions
        | creditor # crest \<Rightarrow>
            case debtors of [] \<Rightarrow> Some transactions
            | debtor # drest \<Rightarrow>
                case settle_step creditor crest debtor drest transactions of
                (creditors', debtors', transactions') \<Rightarrow> f creditors' debtors' transactions') = Some y"
    show "settle creditors debtors transactions = Some y \<longrightarrow> P creditors debtors transactions y"
    proof (cases "creditors = [] \<or> debtors = []")
      case True
      then have "y = transactions"
        using body by (auto split: list.splits)
      then show ?thesis
        using stop [OF True] by simp
    next
      case False
      then obtain creditor crest debtor drest
        where c: "creditors = creditor # crest" and d: "debtors = debtor # drest"
        by (cases creditors; cases debtors) auto
      obtain cs ds ts where s: "settle_step creditor crest debtor drest transactions = (cs, ds, ts)"
        by (cases "settle_step creditor crest debtor drest transactions")
      have f: "f cs ds ts = Some y"
        using body by (simp add: c d s)
      show ?thesis
      proof
        assume "settle creditors debtors transactions = Some y"
        then have r: "settle cs ds ts = Some y"
          by (simp add: c d settle_Cons s)
        with ih [OF f] have "P cs ds ts y"
          by simp
        then show "P creditors debtors transactions y"
          unfolding c d using s r by (intro step)
      qed
    qed
  qed
  with run show ?thesis
    by simp
qed

lemma jsub_NaN_left [simp]: "jsub NaN a = NaN"
  by (simp add: jsub_def)

lemma round_2_NaN [simp]: "round_2 NaN = NaN"
  by (simp add: round_2_def)

lemma round_2_NInf [simp]: "round_2 NInf = NInf"
  by (simp add: round_2_def lit_100_def signed_inf_def)

lemma Math_min_NaN [simp]: "Math_min NaN a = NaN" "Math_min a NaN = NaN"
  by (simp_all add: Math_min_def)

lemma settle_step_NaN:
  assumes "balance creditor = NaN" and "balance debtor = NaN"
  shows "settle_step creditor crest debtor drest transactions
       = (creditor # crest, debtor # drest, transactions)"
  using assms by (simp add: settle_step_def)

lemma settle_NaN_never_returns:
  assumes "settle creditors debtors transactions = Some y"
  shows "\<not> (creditors \<noteq> [] \<and> debtors \<noteq> []
            \<and> balance (hd creditors) = NaN \<and> balance (hd debtors) = NaN)"
  using assms
proof (induct rule: settle_induct)
  case (stop creditors debtors transactions)
  then show ?case
    by auto
next
  case (step creditor crest debtor drest transactions creditors' debtors' transactions' y)
  show ?case
  proof
    assume "creditor # crest \<noteq> [] \<and> debtor # drest \<noteq> []
        \<and> balance (hd (creditor # crest)) = NaN \<and> balance (hd (debtor # drest)) = NaN"
    then have "creditors' = creditor # crest \<and> debtors' = debtor # drest
        \<and> balance creditor = NaN \<and> balance debtor = NaN"
      using step(1) by (simp add: settle_step_NaN)
    with step(3) show False
      by simp
  qed
qed

lemma settle_NaN_diverges:
  assumes "balance creditor = NaN" and "balance debtor = NaN"
  shows "settle (creditor # crest) (debtor # drest) transactions = None"
proof (cases "settle (creditor # crest) (debtor # drest) transactions")
  case None
  then show ?thesis .
next
  case (Some y)
  from settle_NaN_never_returns [OF Some] assms show ?thesis
    by simp
qed

lemma settle_overflow_diverges:
  assumes "balance creditor = Fin x" and "balance debtor = Fin z"
    and "round_2 (Math_min (Fin x) (Fin (- z))) = PInf"
  shows "settle (creditor # crest) (debtor # drest) transactions = None"
proof -
  have 1: "settle_step creditor crest debtor drest transactions
      = (creditor\<lparr>balance := NInf\<rparr> # crest, debtor\<lparr>balance := PInf\<rparr> # drest,
         transactions @ [\<lparr>tx_from = name debtor, tx_to = name creditor, tx_amount = ''Infinity''\<rparr>])"
    using assms by (simp add: settle_step_def jsub_def lit_0_01_eq)
  have 2: "settle_step (creditor\<lparr>balance := NInf\<rparr>) crest (debtor\<lparr>balance := PInf\<rparr>) drest ts
      = (creditor\<lparr>balance := NaN\<rparr> # crest, debtor\<lparr>balance := NaN\<rparr> # drest, ts)" for ts
    by (simp add: settle_step_def jsub_def Math_min_def)
  have "settle (creditor # crest) (debtor # drest) transactions
      = settle (creditor\<lparr>balance := NInf\<rparr> # crest) (debtor\<lparr>balance := PInf\<rparr> # drest)
          (transactions @ [\<lparr>tx_from = name debtor, tx_to = name creditor, tx_amount = ''Infinity''\<rparr>])"
    by (subst settle_Cons) (simp only: 1 prod.case)
  also have "\<dots> = settle (creditor\<lparr>balance := NaN\<rparr> # crest) (debtor\<lparr>balance := NaN\<rparr> # drest)
          (transactions @ [\<lparr>tx_from = name debtor, tx_to = name creditor, tx_amount = ''Infinity''\<rparr>])"
    by (subst settle_Cons) (simp only: 2 prod.case)
  also have "\<dots> = None"
    by (rule settle_NaN_diverges) simp_all
  finally show ?thesis .
qed

subsection \<open>Overflow\<close>

lemma fl_pow2:
  assumes "- 1074 \<le> k" and "k \<le> 1023"
  shows "fl (pow2 k) = Fin (pow2 k)" and "fl (- pow2 k) = Fin (- pow2 k)"
proof -
  show "fl (pow2 k) = Fin (pow2 k)"
  proof (cases "k \<le> 971")
    case True
    then show ?thesis
      using fl_exact [of 1 k] assms by simp
  next
    case False
    then have "(2::int) ^ nat (k - 971) \<le> 2 ^ 52"
      using assms by (intro power_increasing) simp_all
    then have "\<bar>(2::int) ^ nat (k - 971)\<bar> < 2 ^ 53"
      by simp
    from fl_exact [OF this, of 971]
    have "fl (pow2 (k - 971) * pow2 971) = Fin (pow2 (k - 971) * pow2 971)"
      using False by (simp add: pow2_nat)
    then show ?thesis
      by (simp add: pow2_add [symmetric])
  qed
  then show "fl (- pow2 k) = Fin (- pow2 k)"
    by (simp add: fl_minus)
qed

lemma fl_overflow:
  assumes "\<bar>n\<bar> < 2 ^ 53" and "- 1074 \<le> k" and "pow2 1024 \<le> of_int n * pow2 k"
  shows "fl (of_int n * pow2 k) = PInf"
  using assms by (simp add: fl_def ru_exact)

subsection \<open>Moderate balances\<close>

lemma ru_pow2_1023: "round_unbounded (pow2 1023) = pow2 1023"
proof -
  have "round_unbounded (of_int (2 ^ 52) * pow2 971) = of_int (2 ^ 52) * pow2 971"
    by (rule ru_exact) simp_all
  moreover have "of_int (2 ^ 52) * pow2 971 = pow2 52 * pow2 971"
    by (simp only: pow2_52)
  moreover have "pow2 52 * pow2 971 = pow2 1023"
    by (simp add: pow2_add [symmetric])
  ultimately show ?thesis
    by simp
qed

lemma fl_Fin_ru:
  assumes "\<bar>x\<bar> \<le> pow2 1023"
  shows "fl x = Fin (round_unbounded x)"
proof -
  have "round_unbounded x \<le> pow2 1023"
    using ru_mono [of x "pow2 1023"] assms by (simp add: ru_pow2_1023 abs_le_iff)
  moreover have "- pow2 1023 \<le> round_unbounded x"
    using ru_mono [of "- pow2 1023" x] assms by (simp add: ru_minus ru_pow2_1023 abs_le_iff)
  moreover have "pow2 1023 < pow2 1024"
    by (simp add: pow2_less_iff)
  ultimately have "\<bar>round_unbounded x\<bar> < pow2 1024"
    by (simp add: abs_less_iff)
  then show ?thesis
    by (rule fl_finite)
qed

lemma pow2_1023_big: "2 ^ 60 \<le> pow2 1023"
proof -
  have "pow2 60 \<le> pow2 1023"
    by (simp add: pow2_le_iff)
  then show ?thesis
    by (simp add: pow2_nat)
qed

lemma ru_consts:
  "round_unbounded 8796093022208 = 8796093022208"
  "round_unbounded (- 8796093022208) = - 8796093022208"
  "round_unbounded (1 / 128) = 1 / 128"
  "round_unbounded (- (1 / 128)) = - (1 / 128)"
  "round_unbounded (1 / 8) = 1 / 8"
  "round_unbounded (879609302220800) = 879609302220800"
  using ru_exact [of "2 ^ 43" 0] ru_exact [of "- (2 ^ 43)" 0] ru_exact [of 1 "- 7"]
    ru_exact [of "- 1" "- 7"] ru_exact [of 1 "- 3"] ru_exact [of 879609302220800 0]
  by (simp_all add: pow2_def)

lemma round_2_close:
  assumes "0 < m" and "m \<le> 2 ^ 43"
  shows "\<exists>a. round_2 (Fin m) = Fin a \<and> 0 \<le> a \<and> \<bar>m - a\<bar> \<le> 1 / 128"
proof -
  define t where "t = round_unbounded (m * 100)"
  define R where "R = \<lfloor>t + 1 / 2\<rfloor>"
  define a where "a = round_unbounded (of_int R / 100)"
  have m100: "m * 100 \<le> 879609302220800"
    using assms by simp
  have t0: "0 \<le> t"
    using assms by (simp add: t_def ru_nonneg less_imp_le)
  have tB: "t \<le> 879609302220800"
    using ru_mono [OF m100] by (simp add: t_def ru_consts)
  have 1: "jmul (Fin m) lit_100 = Fin t"
  proof -
    have "\<bar>m * 100\<bar> \<le> pow2 1023"
      using m100 assms pow2_1023_big by simp
    then show ?thesis
      by (simp add: lit_100_def t_def fl_Fin_ru)
  qed
  have R0: "0 \<le> R"
    using t0 by (simp add: R_def)
  have Rlo: "t - 1 / 2 < of_int R" and Rhi: "of_int R \<le> t + 1 / 2"
    unfolding R_def by linarith+
  have 2: "Math_round (Fin t) = Fin (of_int R)"
    by (simp add: R_def)
  have a0: "0 \<le> a"
    using R0 by (simp add: a_def ru_nonneg)
  have 3: "jdiv (Fin (of_int R)) lit_100 = Fin a"
  proof -
    have "\<bar>of_int R / 100 :: rat\<bar> \<le> pow2 1023"
      using R0 Rhi tB pow2_1023_big by simp
    then show ?thesis
      by (simp add: lit_100_def a_def fl_Fin_ru)
  qed
  have r: "round_2 (Fin m) = Fin a"
    by (simp only: round_2_def 1 2 3)
  have close: "\<bar>m - a\<bar> \<le> 1 / 128"
  proof (cases "m < 1 / 1024")
    case True
    then have "m * 100 \<le> 1 / 8"
      by simp
    then have "t \<le> 1 / 8"
      using ru_mono [of "m * 100" "1 / 8"] by (simp add: t_def ru_consts)
    then have "R = 0"
      unfolding R_def using t0 by (intro floor_unique) simp_all
    then have "a = 0"
      by (simp add: a_def)
    with True assms show ?thesis
      by simp
  next
    case False
    have p: "pow2 (- 1022) \<le> pow2 (- 10)"
      by (simp add: pow2_le_iff)
    have p10: "pow2 (- 10) = 1 / 1024" and p53: "pow2 (- 53) = 1 / 9007199254740992"
      by (simp_all add: pow2_def)
    have "pow2 (- 1022) \<le> \<bar>m * 100\<bar>"
      using False assms p by (simp add: p10)
    from ru_rel_error [OF this] have e1: "\<bar>t - m * 100\<bar> \<le> m * 100 / 9007199254740992"
      using assms by (simp add: t_def p53 abs_mult)
    show ?thesis
    proof (cases "R = 0")
      case True
      then have "a = 0"
        by (simp add: a_def)
      moreover have "t < 1 / 2"
        using Rlo True by simp
      ultimately show ?thesis
        using e1 assms by linarith
    next
      case R: False
      then have "1 \<le> R"
        using R0 by simp
      then have "(1::rat) \<le> of_int R"
        by simp
      then have "pow2 (- 1022) \<le> \<bar>of_int R / 100 :: rat\<bar>"
        using p by (simp add: p10)
      from ru_rel_error [OF this] have e2: "\<bar>a - of_int R / 100\<bar> \<le> of_int R / 100 / 9007199254740992"
        using R0 by (simp add: a_def p53)
      have mB: "m \<le> 8796093022208"
        using assms by simp
      have t1: "\<bar>t - m * 100\<bar> \<le> 1 / 10"
        using e1 mB by linarith
      have "of_int R / 100 \<le> (8796093022209 :: rat)"
        using t1 Rhi mB by linarith
      then have a1: "\<bar>a - of_int R / 100\<bar> \<le> 1 / 1000"
        using e2 by linarith
      show ?thesis
        using t1 a1 Rlo Rhi by linarith
    qed
  qed
  from r a0 close show ?thesis
    by blast
qed

lemma lit_0_01_gt: "jlt (Fin y) lit_0_01 \<longleftrightarrow> y < 5764607523034235 / 576460752303423488"
  by (simp add: lit_0_01_eq)

lemma fl_between:
  assumes "lo \<le> x" and "x \<le> hi"
    and "round_unbounded lo = lo" and "round_unbounded hi = hi"
    and "- (2 ^ 60) \<le> lo" and "hi \<le> 2 ^ 60"
  shows "\<exists>y. fl x = Fin y \<and> lo \<le> y \<and> y \<le> hi"
proof -
  have "\<bar>x\<bar> \<le> pow2 1023"
    using assms pow2_1023_big by (simp add: abs_le_iff)
  then have "fl x = Fin (round_unbounded x)"
    by (rule fl_Fin_ru)
  moreover have "lo \<le> round_unbounded x"
    using ru_mono [OF assms(1)] by (simp add: assms(3))
  moreover have "round_unbounded x \<le> hi"
    using ru_mono [OF assms(2)] by (simp add: assms(4))
  ultimately show ?thesis
    by blast
qed

lemma moderate_Fin: "moderate v \<longleftrightarrow> (\<exists>q. v = Fin q \<and> \<bar>q\<bar> \<le> 2 ^ 43)"
  by (cases v) (simp_all add: moderate_def)

lemma settle_step_moderate:
  assumes "jlt (Fin 0) (balance creditor)" and "moderate (balance creditor)"
    and "jlt (balance debtor) (Fin 0)" and "moderate (balance debtor)"
  shows "\<exists>cs ds ts. settle_step creditor crest debtor drest transactions = (cs, ds, ts)
      \<and> (cs = crest \<or> (\<exists>c'. cs = c' # crest \<and> jlt (Fin 0) (balance c') \<and> moderate (balance c')))
      \<and> (ds = drest \<or> (\<exists>d'. ds = d' # drest \<and> jlt (balance d') (Fin 0) \<and> moderate (balance d')))
      \<and> (cs = crest \<or> ds = drest)
      \<and> (ts = transactions \<or> (\<exists>t. ts = transactions @ [t]))"
proof -
  obtain c where c: "balance creditor = Fin c" "0 < c" "c \<le> 8796093022208"
    using assms(1,2) by (auto simp: moderate_Fin)
  obtain d where d: "balance debtor = Fin d" "d < 0" "- 8796093022208 \<le> d"
    using assms(3,4) by (auto simp: moderate_Fin)
  define m where "m = (if - d < c then - d else c)"
  have min: "Math_min (Fin c) (Fin (- d)) = Fin m"
    by (simp add: Math_min_def m_def)
  have m: "0 < m" "m \<le> 2 ^ 43" "m \<le> c" "m \<le> - d"
    using c d by (simp_all add: m_def)
  obtain a where a: "round_2 (Fin m) = Fin a" "0 \<le> a" "\<bar>m - a\<bar> \<le> 1 / 128"
    using round_2_close [OF m(1,2)] by blast
  have "- (1 / 128) \<le> c - a" and "c - a \<le> 8796093022208"
    using a m c by linarith+
  from fl_between [OF this] obtain c' where c': "fl (c - a) = Fin c'" "- (1 / 128) \<le> c'" "c' \<le> 8796093022208"
    by (auto simp: ru_consts)
  have "- 8796093022208 \<le> d + a" and "d + a \<le> 1 / 128"
    using a m d by linarith+
  from fl_between [OF this] obtain d' where d': "fl (d + a) = Fin d'" "- 8796093022208 \<le> d'" "d' \<le> 1 / 128"
    by (auto simp: ru_consts)
  have small_c: "\<bar>c'\<bar> \<le> 1 / 128" if "m = c"
  proof -
    have "- (1 / 128) \<le> c - a" and "c - a \<le> 1 / 128"
      using a that by linarith+
    from fl_between [OF this] show ?thesis
      using c'(1) by (auto simp: ru_consts abs_le_iff)
  qed
  have small_d: "\<bar>d'\<bar> \<le> 1 / 128" if "m = - d"
  proof -
    have "- (1 / 128) \<le> d + a" and "d + a \<le> 1 / 128"
      using a that by linarith+
    from fl_between [OF this] show ?thesis
      using d'(1) by (auto simp: ru_consts abs_le_iff)
  qed
  define cs where "cs = (if jlt (Fin \<bar>c'\<bar>) lit_0_01 then crest else creditor\<lparr>balance := Fin c'\<rparr> # crest)"
  define ds where "ds = (if jlt (Fin \<bar>d'\<bar>) lit_0_01 then drest else debtor\<lparr>balance := Fin d'\<rparr> # drest)"
  define ts where "ts = (if 0 < a then transactions @
      [\<lparr>tx_from = name debtor, tx_to = name creditor, tx_amount = toFixed_2 (Fin a)\<rparr>] else transactions)"
  have step: "settle_step creditor crest debtor drest transactions = (cs, ds, ts)"
    by (simp add: settle_step_def Let_def min a(1) c(1) d(1) jsub_def c'(1) d'(1) cs_def ds_def ts_def)
  have 1: "cs = crest \<or> (\<exists>p. cs = p # crest \<and> jlt (Fin 0) (balance p) \<and> moderate (balance p))"
  proof (cases "jlt (Fin \<bar>c'\<bar>) lit_0_01")
    case True
    then show ?thesis
      by (simp add: cs_def)
  next
    case False
    then have "5764607523034235 / 576460752303423488 \<le> \<bar>c'\<bar>"
      by (simp add: lit_0_01_gt not_less)
    then have "0 < c'"
      using c'(2) by linarith
    then show ?thesis
      using False c'(3) by (simp add: cs_def moderate_Fin)
  qed
  have 2: "ds = drest \<or> (\<exists>p. ds = p # drest \<and> jlt (balance p) (Fin 0) \<and> moderate (balance p))"
  proof (cases "jlt (Fin \<bar>d'\<bar>) lit_0_01")
    case True
    then show ?thesis
      by (simp add: ds_def)
  next
    case False
    then have "5764607523034235 / 576460752303423488 \<le> \<bar>d'\<bar>"
      by (simp add: lit_0_01_gt not_less)
    then have "d' < 0"
      using d'(3) by linarith
    then show ?thesis
      using False d'(2) by (simp add: ds_def moderate_Fin)
  qed
  have 3: "cs = crest \<or> ds = drest"
  proof (cases "m = c")
    case True
    from small_c [OF this] have "jlt (Fin \<bar>c'\<bar>) lit_0_01"
      by (simp add: lit_0_01_gt)
    then show ?thesis
      by (simp add: cs_def)
  next
    case False
    then have "m = - d"
      by (simp add: m_def split: if_splits)
    from small_d [OF this] have "jlt (Fin \<bar>d'\<bar>) lit_0_01"
      by (simp add: lit_0_01_gt)
    then show ?thesis
      by (simp add: ds_def)
  qed
  have 4: "ts = transactions \<or> (\<exists>t. ts = transactions @ [t])"
    by (simp add: ts_def)
  from step 1 2 3 4 show ?thesis
    by blast
qed

lemma settle_moderate:
  assumes "\<forall>p\<in>set creditors. jlt (Fin 0) (balance p) \<and> moderate (balance p)"
    and "\<forall>p\<in>set debtors. jlt (balance p) (Fin 0) \<and> moderate (balance p)"
  shows "\<exists>out. settle creditors debtors transactions = Some out
      \<and> length out \<le> length transactions
          + (if creditors = [] \<or> debtors = [] then 0 else length creditors + length debtors - 1)"
  using assms
proof (induct "length creditors + length debtors" arbitrary: creditors debtors transactions
    rule: less_induct)
  case less
  show ?case
  proof (cases "creditors = [] \<or> debtors = []")
    case True
    then show ?thesis
      by auto
  next
    case False
    then obtain creditor crest debtor drest
      where cd: "creditors = creditor # crest" "debtors = debtor # drest"
      by (cases creditors; cases debtors) auto
    from settle_step_moderate [of creditor debtor crest drest transactions]
    obtain cs ds ts where s: "settle_step creditor crest debtor drest transactions = (cs, ds, ts)"
      and cs: "cs = crest \<or> (\<exists>c'. cs = c' # crest \<and> jlt (Fin 0) (balance c') \<and> moderate (balance c'))"
      and ds: "ds = drest \<or> (\<exists>d'. ds = d' # drest \<and> jlt (balance d') (Fin 0) \<and> moderate (balance d'))"
      and one: "cs = crest \<or> ds = drest"
      and ts: "ts = transactions \<or> (\<exists>t. ts = transactions @ [t])"
      using less.prems by (auto simp: cd)
    have len: "length cs + length ds < length creditors + length debtors"
      using cs ds one by (auto simp: cd)
    have okc: "\<forall>p\<in>set cs. jlt (Fin 0) (balance p) \<and> moderate (balance p)"
      using cs less.prems(1) by (auto simp: cd)
    have okd: "\<forall>p\<in>set ds. jlt (balance p) (Fin 0) \<and> moderate (balance p)"
      using ds less.prems(2) by (auto simp: cd)
    from less.hyps [OF len okc okd, of ts] obtain out
      where out: "settle cs ds ts = Some out"
        and n: "length out \<le> length ts + (if cs = [] \<or> ds = [] then 0 else length cs + length ds - 1)"
      by blast
    have "settle creditors debtors transactions = Some out"
      by (simp add: cd settle_Cons s out)
    moreover have "length ts \<le> length transactions + 1"
      using ts by auto
    then have "length out \<le> length transactions + (length creditors + length debtors - 1)"
      using n len by (auto simp: cd split: if_splits)
    ultimately show ?thesis
      using False by simp
  qed
qed

subsection \<open>Sorting and the transaction count\<close>

lemma set_insert_sorted [simp]: "set (insert_sorted cmp a bs) = insert a (set bs)"
  by (induct bs) auto

lemma length_insert_sorted [simp]: "length (insert_sorted cmp a bs) = Suc (length bs)"
  by (induct bs) auto

lemma set_array_sort [simp]: "set (array_sort cmp xs) = set xs"
  by (induct xs) (simp_all add: array_sort_def)

lemma length_array_sort [simp]: "length (array_sort cmp xs) = length xs"
  by (induct xs) (simp_all add: array_sort_def)

lemma array_sort_Nil_iff [simp]: "array_sort cmp xs = [] \<longleftrightarrow> xs = []"
  using length_array_sort [of cmp xs] by (metis length_0_conv)

lemma sort_creditors_simps [simp]:
  "set (sort_creditors xs) = set xs" "length (sort_creditors xs) = length xs"
  "sort_creditors xs = [] \<longleftrightarrow> xs = []"
  by (simp_all add: sort_creditors_def)

lemma sort_debtors_simps [simp]:
  "set (sort_debtors xs) = set xs" "length (sort_debtors xs) = length xs"
  "sort_debtors xs = [] \<longleftrightarrow> xs = []"
  by (simp_all add: sort_debtors_def)

lemma creditors_of_positive: "p \<in> set (creditors_of balances) \<Longrightarrow> jlt (Fin 0) (balance p)"
  by (auto simp: creditors_of_def to_party_def)

lemma debtors_of_negative: "p \<in> set (debtors_of balances) \<Longrightarrow> jlt (balance p) (Fin 0)"
  by (auto simp: debtors_of_def to_party_def)

lemma settle_balances_moderate:
  assumes "\<forall>p\<in>set (creditors_of balances @ debtors_of balances). moderate (balance p)"
  shows "\<exists>out. settle_balances balances = Some out
      \<and> length out \<le> (if creditors_of balances = [] \<or> debtors_of balances = [] then 0
                       else length (creditors_of balances) + length (debtors_of balances) - 1)"
proof -
  have c: "\<forall>p\<in>set (sort_creditors (creditors_of balances)). jlt (Fin 0) (balance p) \<and> moderate (balance p)"
    using assms by (auto simp: creditors_of_positive)
  have d: "\<forall>p\<in>set (sort_debtors (debtors_of balances)). jlt (balance p) (Fin 0) \<and> moderate (balance p)"
    using assms by (auto simp: debtors_of_negative)
  from settle_moderate [OF c d, of "[]"] obtain out
    where o: "settle (sort_creditors (creditors_of balances)) (sort_debtors (debtors_of balances)) [] = Some out"
      and n: "length out \<le> length ([] :: transaction list)
          + (if sort_creditors (creditors_of balances) = [] \<or> sort_debtors (debtors_of balances) = [] then 0
             else length (sort_creditors (creditors_of balances))
                  + length (sort_debtors (debtors_of balances)) - 1)"
    by blast
  have "settle_balances balances = Some out"
    using o by (simp add: settle_balances_def)
  moreover have "length out \<le> (if creditors_of balances = [] \<or> debtors_of balances = [] then 0
                       else length (creditors_of balances) + length (debtors_of balances) - 1)"
    using n by (simp cong: if_cong)
  ultimately show ?thesis
    by blast
qed

lemma fl_cert:
  assumes "pow2 e \<le> \<bar>x\<bar>" and "\<bar>x\<bar> < pow2 (e + 1)" and "- 1022 \<le> e" and "e \<le> 1022"
    and "\<bar>x / pow2 (e - 52) - of_int n\<bar> < 1 / 2"
  shows "fl x = Fin (of_int n * pow2 (e - 52))"
proof -
  have "x \<noteq> 0"
    using assms(1) pow2_pos [of e] by auto
  moreover have m: "max e (- 1022) = e"
    using assms(3) by simp
  ultimately have "round_unbounded x = of_int n * pow2 (e - 52)"
    using ru_cert [of x e n] assms by (simp add: m)
  moreover have "pow2 (e + 1) \<le> pow2 1023"
    using assms(4) by (simp add: pow2_le_iff)
  then have "\<bar>x\<bar> \<le> pow2 1023"
    using assms(2) by linarith
  ultimately show ?thesis
    by (simp add: fl_Fin_ru)
qed

subsection \<open>Printing amounts\<close>





lemma nat_digits_nonempty: "nat_digits n \<noteq> []"
  by (subst nat_digits.simps) simp























section \<open>Properties of the settlement function\<close>

text \<open>
  Claim C5.  Degenerate inputs yield the empty list of transactions, and the
  function returns: when \<^verbatim>\<open>expenses\<close> is \<^verbatim>\<open>null\<close> or empty, when \<^verbatim>\<open>members\<close> is
  \<^verbatim>\<open>null\<close> or empty, and when every member name is empty or white space, so
  that no valid member is left.
\<close>

theorem degenerate_inputs_give_empty_result:
  "calculateExpenseSplit None members = Some []
   \<and> calculateExpenseSplit (Some []) members = Some []
   \<and> calculateExpenseSplit expenses None = Some []
   \<and> calculateExpenseSplit expenses (Some []) = Some []
   \<and> ((\<forall>m\<in>set ms. blank m) \<longrightarrow> calculateExpenseSplit expenses (Some ms) = Some [])"
proof -
  have "filter valid_member ms = []" if "\<forall>m\<in>set ms. blank m"
    using that by (simp add: filter_empty_conv valid_member_iff)
  then show ?thesis
    by (auto simp: calculateExpenseSplit_def Let_def split: option.splits)
qed

theorem degenerate_inputs_give_empty_result_witness:
  "blank [] \<and> blank ''  ''
   \<and> calculateExpenseSplit (Some [\<lparr>payer = JStr ''A'', amount = JNum (Fin 90)\<rparr>])
         (Some [[], ''  '']) = Some []"
proof -
  have b: "blank [] \<and> blank ''  ''"
    by (simp add: blank_def is_ws_def)
  then have "\<forall>m\<in>set [[], ''  '']. blank m"
    by simp
  with b show ?thesis
    using degenerate_inputs_give_empty_result
      [of None "Some [\<lparr>payer = JStr ''A'', amount = JNum (Fin 90)\<rparr>]" "[[], ''  '']"]
    by blast
qed

text \<open>
  Claim C7.  Blank names are transparent: the result on a list of members
  is the result on that list with the empty and white-space names removed;
  in particular \<^verbatim>\<open>["A", "", "  ", "B"]\<close> behaves as \<^verbatim>\<open>["A", "B"]\<close>.
\<close>

theorem blank_names_are_transparent:
  "calculateExpenseSplit expenses (Some ms)
     = calculateExpenseSplit expenses (Some (filter (\<lambda>m. \<not> blank m) ms))
   \<and> calculateExpenseSplit expenses (Some [''A'', '''', ''  '', ''B''])
     = calculateExpenseSplit expenses (Some [''A'', ''B''])"
proof -
  have w: "filter valid_member (filter (\<lambda>m. \<not> blank m) ms) = filter valid_member ms" for ms
    by (induct ms) (simp_all add: valid_member_iff)
  have k: "calculateExpenseSplit expenses (Some ms)
      = (case expenses of None \<Rightarrow> Some []
         | Some es \<Rightarrow> if es = [] \<or> filter valid_member ms = [] then Some []
                     else settle_valid es (filter valid_member ms))" for ms
    by (cases ms) (simp_all add: calculateExpenseSplit_def Let_def split: option.splits)
  have g: "calculateExpenseSplit expenses (Some ms)
     = calculateExpenseSplit expenses (Some (filter (\<lambda>m. \<not> blank m) ms))" for ms
    by (simp only: k w)
  have "filter (\<lambda>m. \<not> blank m) [''A'', '''', ''  '', ''B''] = [''A'', ''B'']"
    by (simp add: blank_def is_ws_def)
  with g [of "[''A'', '''', ''  '', ''B'']"] g [of ms] show ?thesis
    by simp
qed

text \<open>
  Claim C9, as stated, fails: with the one expense \<^verbatim>\<open>{payer: "A", amount: 90}\<close>
  the members \<^verbatim>\<open>["A", "B"]\<close> give one payment of \<^verbatim>\<open>45.00\<close> and the members
  \<^verbatim>\<open>["A", "B", "A"]\<close> one payment of \<^verbatim>\<open>30.00\<close>.
\<close>

theorem duplicate_member_changes_result:
  "calculateExpenseSplit (Some [\<lparr>payer = JStr ''A'', amount = JNum (Fin 90)\<rparr>]) (Some [''A'', ''B'', ''A''])
   \<noteq> calculateExpenseSplit (Some [\<lparr>payer = JStr ''A'', amount = JNum (Fin 90)\<rparr>]) (Some [''A'', ''B''])"
proof -
  have "calculateExpenseSplit (Some [\<lparr>payer = JStr ''A'', amount = JNum (Fin 90)\<rparr>]) (Some [''A'', ''B'', ''A''])
      = Some [\<lparr>tx_from = ''B'', tx_to = ''A'', tx_amount = ''30.00''\<rparr>]"
    by (simp add: eval_defs)
  moreover have "calculateExpenseSplit (Some [\<lparr>payer = JStr ''A'', amount = JNum (Fin 90)\<rparr>]) (Some [''A'', ''B''])
      = Some [\<lparr>tx_from = ''B'', tx_to = ''A'', tx_amount = ''45.00''\<rparr>]"
    by (simp add: eval_defs)
  ultimately show ?thesis
    by simp
qed

text \<open>
  Claim C9, amended.  A duplicate of a valid name, added after an occurrence
  already present, shares the entry of that name: every total is unchanged
  and no second balance is created.  It still counts in
  \<^verbatim>\<open>validMembers.length\<close>: the result is the one for the list without the
  duplicate, computed with the total divided by one more.
\<close>

theorem duplicate_member_counts_in_divisor:
  assumes "es \<noteq> []" and "valid_member m" and "m \<in> set xs"
  shows "total_spent es (filter valid_member (xs @ m # ys))
           = total_spent es (filter valid_member (xs @ ys))
         \<and> calculateExpenseSplit (Some es) (Some (xs @ m # ys))
           = settle_balances (balances_for es (filter valid_member (xs @ ys))
               (Suc (length (filter valid_member (xs @ ys)))))"
proof -
  have m: "m \<in> set (filter valid_member xs)"
    using assms by simp
  have f: "filter valid_member (xs @ m # ys) = filter valid_member xs @ m # filter valid_member ys"
    using assms by simp
  have "balances_of es (filter valid_member (xs @ m # ys))
      = balances_for es (filter valid_member (xs @ ys)) (Suc (length (filter valid_member (xs @ ys))))"
    unfolding f using balances_dup [OF m, of es "filter valid_member ys"] by simp
  moreover have "total_spent es (filter valid_member (xs @ m # ys))
           = total_spent es (filter valid_member (xs @ ys))"
    unfolding f using total_spent_dup [OF m, of es "filter valid_member ys"] by simp
  ultimately show ?thesis
    using assms by (simp add: calculateExpenseSplit_def settle_valid_def Let_def)
qed

theorem duplicate_member_counts_in_divisor_witness:
  "[\<lparr>payer = JStr ''A'', amount = JNum (Fin 90)\<rparr>] \<noteq> [] \<and> valid_member ''A'' \<and> ''A'' \<in> set [''A'', ''B'']
   \<and> calculateExpenseSplit (Some [\<lparr>payer = JStr ''A'', amount = JNum (Fin 90)\<rparr>]) (Some [''A'', ''B'', ''A''])
     = settle_balances (balances_for [\<lparr>payer = JStr ''A'', amount = JNum (Fin 90)\<rparr>] [''A'', ''B''] 3)
   \<and> settle_balances (balances_for [\<lparr>payer = JStr ''A'', amount = JNum (Fin 90)\<rparr>] [''A'', ''B''] 3)
     = Some [\<lparr>tx_from = ''B'', tx_to = ''A'', tx_amount = ''30.00''\<rparr>]"
proof -
  have v: "valid_member ''A''" "valid_member ''B''"
    by (simp_all add: valid_member_def trim_def is_ws_def)
  have e: "settle_balances (balances_for [\<lparr>payer = JStr ''A'', amount = JNum (Fin 90)\<rparr>] [''A'', ''B''] 3)
     = Some [\<lparr>tx_from = ''B'', tx_to = ''A'', tx_amount = ''30.00''\<rparr>]"
    by (simp add: eval_defs)
  show ?thesis
    using duplicate_member_counts_in_divisor
      [of "[\<lparr>payer = JStr ''A'', amount = JNum (Fin 90)\<rparr>]" "''A''" "[''A'', ''B'']" "[]"] v e
    by (simp add: numeral_3_eq_3)
qed

text \<open>
  Claim C6.  An expense whose payer is not a valid member name, or whose
  amount is falsy (\<^verbatim>\<open>0\<close>, \<^verbatim>\<open>NaN\<close>, the empty string, \<^verbatim>\<open>null\<close>, \<^verbatim>\<open>undefined\<close>,
  \<^verbatim>\<open>false\<close>), contributes to no total: the result is the result on the input
  with that expense removed.
\<close>

theorem ignored_expense_is_dropped:
  assumes "\<not> payer_matches (valid_members members) e \<or> \<not> to_boolean (amount e)"
  shows "calculateExpenseSplit (Some (es1 @ e # es2)) members
       = calculateExpenseSplit (Some (es1 @ es2)) members"
proof (cases "valid_members members = []")
  case True
  then show ?thesis
    by (simp add: calc_unfold)
next
  case False
  note ts = total_spent_ignored [OF assms, of es1 es2]
  show ?thesis
  proof (cases "es1 @ es2 = []")
    case True
    then have "total_spent [e] (valid_members members) = init_totals (valid_members members)"
      using ts by (simp add: total_spent_def)
    then have "settle_valid [e] (valid_members members) = Some []"
      using settle_valid_no_expense [OF False]
      by (simp add: settle_valid_def balances_of_def balances_for_def Let_def)
    with True False show ?thesis
      by (simp add: calc_unfold)
  next
    case nonempty: False
    have "settle_valid (es1 @ e # es2) (valid_members members)
        = settle_valid (es1 @ es2) (valid_members members)"
      by (simp add: settle_valid_def balances_of_def balances_for_def ts)
    with nonempty False show ?thesis
      by (auto simp: calc_unfold)
  qed
qed

theorem ignored_expense_is_dropped_witness:
  "\<not> payer_matches (valid_members (Some [''A'', ''B''])) \<lparr>payer = JStr ''C'', amount = JNum (Fin 100)\<rparr>
   \<and> calculateExpenseSplit
       (Some ([\<lparr>payer = JStr ''A'', amount = JNum (Fin 90)\<rparr>] @ \<lparr>payer = JStr ''C'', amount = JNum (Fin 100)\<rparr> # []))
       (Some [''A'', ''B''])
     = calculateExpenseSplit (Some ([\<lparr>payer = JStr ''A'', amount = JNum (Fin 90)\<rparr>] @ [])) (Some [''A'', ''B''])
   \<and> calculateExpenseSplit (Some ([\<lparr>payer = JStr ''A'', amount = JNum (Fin 90)\<rparr>] @ [])) (Some [''A'', ''B''])
     = Some [\<lparr>tx_from = ''B'', tx_to = ''A'', tx_amount = ''45.00''\<rparr>]"
proof -
  have h: "\<not> payer_matches (valid_members (Some [''A'', ''B''])) \<lparr>payer = JStr ''C'', amount = JNum (Fin 100)\<rparr>"
    by (simp add: payer_matches_def valid_members_def valid_member_def trim_def is_ws_def)
  have e: "calculateExpenseSplit (Some ([\<lparr>payer = JStr ''A'', amount = JNum (Fin 90)\<rparr>] @ [])) (Some [''A'', ''B''])
     = Some [\<lparr>tx_from = ''B'', tx_to = ''A'', tx_amount = ''45.00''\<rparr>]"
    by (simp add: eval_defs)
  from h have "\<not> payer_matches (valid_members (Some [''A'', ''B''])) \<lparr>payer = JStr ''C'', amount = JNum (Fin 100)\<rparr>
      \<or> \<not> to_boolean (amount \<lparr>payer = JStr ''C'', amount = JNum (Fin 100)\<rparr>)"
    by blast
  from ignored_expense_is_dropped [OF this, of "[\<lparr>payer = JStr ''A'', amount = JNum (Fin 90)\<rparr>]" "[]"] h e
  show ?thesis
    by blast
qed

text \<open>
  Claim C10, as stated, fails.  The string \<^verbatim>\<open>"abc"\<close> is truthy and converts to
  \<^verbatim>\<open>NaN\<close>, and the payer \<^verbatim>\<open>A\<close> is a valid member; but a later expense of the
  same payer resets the total, because \<^verbatim>\<open>totalSpent[payer] || 0\<close> reads the
  falsy \<^verbatim>\<open>NaN\<close> as \<open>0\<close>, and the function returns a payment.
\<close>

theorem nan_amount_counterexample:
  "to_boolean (JStr ''abc'') \<and> to_number (JStr ''abc'') = NaN
   \<and> calculateExpenseSplit
        (Some [\<lparr>payer = JStr ''A'', amount = JStr ''abc''\<rparr>, \<lparr>payer = JStr ''A'', amount = JNum (Fin 10)\<rparr>])
        (Some [''A'', ''B''])
      = Some [\<lparr>tx_from = ''B'', tx_to = ''A'', tx_amount = ''5.00''\<rparr>]"
proof -
  have n: "string_to_number ''abc'' = NaN"
    by (simp add: string_to_number_def trim_def is_ws_def radix_prefix_def unsigned_decimal_def
        is_digit_def digit_in_def hex_val_def Let_def)
  show ?thesis
    by (simp add: n eval_defs)
qed

text \<open>
  Claim C10, amended.  Let an expense have a payer among the valid members
  (other than the name \<^verbatim>\<open>__proto__\<close>, which never gets a total) and a truthy
  amount that converts to \<^verbatim>\<open>NaN\<close>, and let every later expense of that payer
  with a truthy amount convert to \<^verbatim>\<open>NaN\<close> as well.  Then the payer's total,
  the total of all expenses and every balance are \<^verbatim>\<open>NaN\<close>, there is no
  creditor and no debtor, and the function returns the empty list.
\<close>

theorem nan_amount_poisons_when_last:
  assumes "payer e = JStr p" and "p \<in> set (valid_members members)" and "p \<noteq> ''__proto__''"
    and "to_boolean (amount e)" and "to_number (amount e) = NaN"
    and "\<forall>e'\<in>set es2. payer e' = JStr p \<and> to_boolean (amount e') \<longrightarrow> to_number (amount e') = NaN"
  shows "prop_number (total_spent (es1 @ e # es2) (valid_members members)) p = NaN
       \<and> total_expenses (total_spent (es1 @ e # es2) (valid_members members)) = NaN
       \<and> (\<forall>(k, v)\<in>set (balances_of (es1 @ e # es2) (valid_members members)). v = NaN)
       \<and> creditors_of (balances_of (es1 @ e # es2) (valid_members members)) = []
       \<and> debtors_of (balances_of (es1 @ e # es2) (valid_members members)) = []
       \<and> calculateExpenseSplit (Some (es1 @ e # es2)) members = Some []"
proof -
  define vms where "vms = valid_members members"
  define ts1 where "ts1 = foldl (add_expense vms) (init_totals vms) es1"
  define ts where "ts = total_spent (es1 @ e # es2) vms"
  have "map_of ts1 p \<noteq> None"
    unfolding ts1_def using assms(2,3) by (intro fold_keeps_key) (simp add: init_totals_key vms_def)
  then obtain t where "map_of ts1 p = Some t"
    by blast
  moreover have "p \<noteq> []"
    using assms(2) by (auto simp: valid_members_def valid_member_def split: option.splits)
  ultimately have "map_of (add_expense vms ts1 e) p = Some NaN"
    using assms by (intro add_expense_poison) (simp_all add: vms_def)
  then have p: "map_of ts p = Some NaN"
    unfolding ts_def total_spent_def ts1_def using assms(6) by (simp add: fold_keeps_poison)
  then have 1: "prop_number ts p = NaN"
    by (simp add: prop_number_def)
  have "(p, NaN) \<in> set ts"
    using p by (rule map_of_SomeD)
  then have "NaN \<in> set (Object_values ts)"
    by (force simp: Object_values_def)
  then have 2: "total_expenses ts = NaN"
    by (simp add: total_expenses_def sum_with_NaN)
  have 3: "\<forall>(k, v)\<in>set (balances_of (es1 @ e # es2) vms). v = NaN"
  proof clarify
    fix k v
    assume "(k, v) \<in> set (balances_of (es1 @ e # es2) vms)"
    then show "v = NaN"
      using fold_assign_values [of k v "\<lambda>m. jsub (prop_number ts m) NaN" "[]" vms]
      by (simp add: balances_of_def balances_for_def compute_balances_def 2 flip: ts_def)
  qed
  have 4: "creditors_of (balances_of (es1 @ e # es2) vms) = []"
    using 3 by (auto simp: creditors_of_def filter_empty_conv)
  have 5: "debtors_of (balances_of (es1 @ e # es2) vms) = []"
    using 3 by (auto simp: debtors_of_def filter_empty_conv)
  have "vms \<noteq> []"
    using assms(2) by (auto simp: vms_def)
  then have 6: "calculateExpenseSplit (Some (es1 @ e # es2)) members = Some []"
    using settle_balances_all_NaN [OF 3]
    by (simp add: calc_unfold settle_valid_def flip: vms_def)
  from 1 2 3 4 5 6 show ?thesis
    by (simp add: ts_def vms_def)
qed


theorem nan_amount_poisons_when_last_witness:
  "payer \<lparr>payer = JStr ''A'', amount = JStr ''abc''\<rparr> = JStr ''A''
   \<and> ''A'' \<in> set (valid_members (Some [''A'', ''B'']))
   \<and> to_boolean (amount \<lparr>payer = JStr ''A'', amount = JStr ''abc''\<rparr>)
   \<and> to_number (amount \<lparr>payer = JStr ''A'', amount = JStr ''abc''\<rparr>) = NaN
   \<and> calculateExpenseSplit
        (Some ([\<lparr>payer = JStr ''A'', amount = JNum (Fin 10)\<rparr>] @ \<lparr>payer = JStr ''A'', amount = JStr ''abc''\<rparr>
               # [\<lparr>payer = JStr ''B'', amount = JNum (Fin 10)\<rparr>]))
        (Some [''A'', ''B''])
      = Some []"
proof -
  have n: "string_to_number ''abc'' = NaN"
    by (simp add: string_to_number_def trim_def is_ws_def radix_prefix_def unsigned_decimal_def
        is_digit_def digit_in_def hex_val_def Let_def)
  have v: "''A'' \<in> set (valid_members (Some [''A'', ''B'']))"
    by (simp add: valid_members_def valid_member_def trim_def is_ws_def)
  have l: "\<forall>e'\<in>set [\<lparr>payer = JStr ''B'', amount = JNum (Fin 10)\<rparr>].
      payer e' = JStr ''A'' \<and> to_boolean (amount e') \<longrightarrow> to_number (amount e') = NaN"
    by simp
  show ?thesis
    using nan_amount_poisons_when_last
      [of "\<lparr>payer = JStr ''A'', amount = JStr ''abc''\<rparr>" "''A''" "Some [''A'', ''B'']"
          "[\<lparr>payer = JStr ''B'', amount = JNum (Fin 10)\<rparr>]"
          "[\<lparr>payer = JStr ''A'', amount = JNum (Fin 10)\<rparr>]", OF _ v _ _ _ l]
      n v
    by simp
qed

text \<open>
  Claim C3 says that the computation ends on every input.  On the one
  expense \<^verbatim>\<open>{payer: "A", amount: 2 ** 1023}\<close> (a finite number, about
  \<^verbatim>\<open>8.99e307\<close>) with the members \<^verbatim>\<open>["A", "B"]\<close> it does not: the balances are
  \<open>2 ^ 1022\<close> and \<open>- 2 ^ 1022\<close>, the product \<^verbatim>\<open>amount * 100\<close> overflows to
  \<^verbatim>\<open>Infinity\<close>, the running balances become \<^verbatim>\<open>-Infinity\<close> and \<^verbatim>\<open>Infinity\<close> and
  then \<^verbatim>\<open>NaN\<close>, and from there no comparison with \<open>0.01\<close> is ever true, so
  neither list shrinks and the loop runs for ever.
\<close>

theorem amount_overflow_never_returns:
  "calculateExpenseSplit (Some [\<lparr>payer = JStr ''A'', amount = JNum (Fin (2 ^ 1023))\<rparr>]) (Some [''A'', ''B''])
   = None"
proof -
  have h: "(2::rat) ^ 1023 = pow2 1023"
    by (simp add: pow2_def)
  have a: "pow2 1023 / 2 = pow2 1022" "pow2 1023 - pow2 1022 = pow2 1022"
    using pow2_Suc [of 1022] by simp_all
  have f: "fl (pow2 1023) = Fin (pow2 1023)" "fl (pow2 1022) = Fin (pow2 1022)"
    "fl (- pow2 1022) = Fin (- pow2 1022)"
    by (simp_all add: fl_pow2)
  have "pow2 1024 = 4 * pow2 1022"
    using pow2_add [of 2 1022] by (simp add: pow2_def)
  then have "pow2 1024 \<le> of_int 100 * pow2 1022"
    by simp
  then have "fl (of_int 100 * pow2 1022) = PInf"
    by (intro fl_overflow) simp_all
  then have o: "fl (pow2 1022 * 100) = PInf"
    by (simp add: mult.commute)
  have b: "balances_of [\<lparr>payer = JStr ''A'', amount = JNum (Fin (pow2 1023))\<rparr>] [''A'', ''B'']
      = [(''A'', Fin (pow2 1022)), (''B'', Fin (- pow2 1022))]"
    by (simp add: balances_of_def balances_for_def total_spent_def init_totals_def add_expense_def
        prop_assign_def total_expenses_def Object_values_def own_entries_def is_array_index_def
        is_digit_def digit_in_def hex_val_def compute_balances_def prop_number_def jsub_def a f)
  have c: "sort_creditors (creditors_of [(''A'', Fin (pow2 1022)), (''B'', Fin (- pow2 1022))])
      = [\<lparr>name = ''A'', balance = Fin (pow2 1022)\<rparr>]"
    by (simp add: sort_creditors_def array_sort_def creditors_of_def own_entries_def is_array_index_def
        is_digit_def digit_in_def hex_val_def to_party_def)
  have d: "sort_debtors (debtors_of [(''A'', Fin (pow2 1022)), (''B'', Fin (- pow2 1022))])
      = [\<lparr>name = ''B'', balance = Fin (- pow2 1022)\<rparr>]"
    by (simp add: sort_debtors_def array_sort_def debtors_of_def own_entries_def is_array_index_def
        is_digit_def digit_in_def hex_val_def to_party_def)
  have r: "round_2 (Math_min (Fin (pow2 1022)) (Fin (- (- pow2 1022)))) = PInf"
    by (simp add: round_2_def Math_min_def lit_100_def o signed_inf_def)
  have "settle [\<lparr>name = ''A'', balance = Fin (pow2 1022)\<rparr>]
      [\<lparr>name = ''B'', balance = Fin (- pow2 1022)\<rparr>] [] = None"
    by (rule settle_overflow_diverges [OF _ _ r]) simp_all
  then show ?thesis
    unfolding h
    by (simp add: calculateExpenseSplit_def settle_valid_def settle_balances_def b c d
        valid_member_def trim_def is_ws_def Let_def)
qed

text \<open>
  Claim C2, as stated, fails.  With the one expense
  \<^verbatim>\<open>{payer: "A", amount: 32329181216576468}\<close> and the members \<^verbatim>\<open>["A", "B"]\<close> there
  is one creditor and one debtor, with balances \<open>16164590608288234\<close> and its
  negative, so the bound is one transaction.  The rounded amount
  \<^verbatim>\<open>Math.round(amount * 100) / 100\<close> is \<open>16164590608288232\<close>, two less than the
  balance; neither party is shifted out, and a second transaction settles
  the remaining \<open>2\<close>.  (With no creditor and no debtor the bound, read over
  the integers, is \<open>-1\<close>, and the function returns no transaction.)
\<close>

theorem transaction_count_counterexample:
  "calculateExpenseSplit (Some [\<lparr>payer = JStr ''A'', amount = JNum (Fin 32329181216576468)\<rparr>])
     (Some [''A'', ''B''])
   = Some [\<lparr>tx_from = ''B'', tx_to = ''A'', tx_amount = ''16164590608288232.00''\<rparr>,
           \<lparr>tx_from = ''B'', tx_to = ''A'', tx_amount = ''2.00''\<rparr>]
   \<and> initial_creditors [\<lparr>payer = JStr ''A'', amount = JNum (Fin 32329181216576468)\<rparr>] (Some [''A'', ''B''])
     = [\<lparr>name = ''A'', balance = Fin 16164590608288234\<rparr>]
   \<and> initial_debtors [\<lparr>payer = JStr ''A'', amount = JNum (Fin 32329181216576468)\<rparr>] (Some [''A'', ''B''])
     = [\<lparr>name = ''B'', balance = Fin (- 16164590608288234)\<rparr>]"
proof -
  have f1: "fl 32329181216576468 = Fin 32329181216576468"
    using fl_exact [of 8082295304144117 2] by (simp add: pow2_def)
  have f2: "fl 16164590608288234 = Fin 16164590608288234"
    using fl_exact [of 8082295304144117 1] by (simp add: pow2_def)
  have f3: "fl (- 16164590608288234) = Fin (- 16164590608288234)"
    using fl_exact [of "- 8082295304144117" 1] by (simp add: pow2_def)
  have f4: "fl 1616459060828823400 = Fin 1616459060828823296"
    using fl_cert [of 60 1616459060828823400 6314293206362591] by (simp add: pow2_def)
  have f5: "fl (404114765207205824 / 25) = Fin 16164590608288232"
    using fl_cert [of 53 "404114765207205824 / 25" 8082295304144116] by (simp add: pow2_def)
  have v: "valid_members (Some [''A'', ''B'']) = [''A'', ''B'']"
    by (simp add: valid_members_def valid_member_def trim_def is_ws_def)
  have b: "balances_of [\<lparr>payer = JStr ''A'', amount = JNum (Fin 32329181216576468)\<rparr>] [''A'', ''B'']
      = [(''A'', Fin 16164590608288234), (''B'', Fin (- 16164590608288234))]"
    by (simp add: eval_defs f1 f2 f3)
  have o: "own_entries [(''A'', Fin 16164590608288234), (''B'', Fin (- 16164590608288234))]
      = [(''A'', Fin 16164590608288234), (''B'', Fin (- 16164590608288234))]"
    by (simp add: eval_defs)
  have 1: "calculateExpenseSplit (Some [\<lparr>payer = JStr ''A'', amount = JNum (Fin 32329181216576468)\<rparr>])
     (Some [''A'', ''B''])
   = Some [\<lparr>tx_from = ''B'', tx_to = ''A'', tx_amount = ''16164590608288232.00''\<rparr>,
           \<lparr>tx_from = ''B'', tx_to = ''A'', tx_amount = ''2.00''\<rparr>]"
    by (simp add: calc_unfold v settle_valid_def b settle_balances_def creditors_of_def debtors_of_def o
        to_party_def sort_creditors_def sort_debtors_def array_sort_def settle_Cons settle_step_def
        round_2_def Math_min_def lit_100_def lit_0_01_eq fixed_abs_def fixed_2_def Let_def jsub_def
        f1 f2 f3 f4 f5)
  have 2: "initial_creditors [\<lparr>payer = JStr ''A'', amount = JNum (Fin 32329181216576468)\<rparr>] (Some [''A'', ''B''])
     = [\<lparr>name = ''A'', balance = Fin 16164590608288234\<rparr>]"
    by (simp add: initial_creditors_def v b creditors_of_def o to_party_def)
  have 3: "initial_debtors [\<lparr>payer = JStr ''A'', amount = JNum (Fin 32329181216576468)\<rparr>] (Some [''A'', ''B''])
     = [\<lparr>name = ''B'', balance = Fin (- 16164590608288234)\<rparr>]"
    by (simp add: initial_debtors_def v b debtors_of_def o to_party_def)
  from 1 2 3 show ?thesis
    by simp
qed

text \<open>
  Claim C2, amended.  When every creditor and debtor has a moderate initial
  balance (at most \<open>2 ^ 43\<close> in absolute value), the function returns, and the
  number of transactions is zero if there is no creditor or no debtor, and
  otherwise at most the number of creditors plus the number of debtors
  minus one (which is \<open>min + max - 1\<close>).  Every iteration of the loop then
  removes a creditor or a debtor and pushes at most one transaction.
\<close>

theorem transaction_count_bound:
  assumes "\<forall>p\<in>set (initial_creditors es members @ initial_debtors es members). moderate (balance p)"
  shows "\<exists>out. calculateExpenseSplit (Some es) members = Some out
      \<and> length out \<le> (if initial_creditors es members = [] \<or> initial_debtors es members = [] then 0
                       else length (initial_creditors es members) + length (initial_debtors es members) - 1)"
proof (cases "es = [] \<or> valid_members members = []")
  case True
  then show ?thesis
    by (auto simp: calc_unfold)
next
  case False
  then have "calculateExpenseSplit (Some es) members
      = settle_balances (balances_of es (valid_members members))"
    by (simp add: calc_unfold settle_valid_def)
  moreover obtain out where "settle_balances (balances_of es (valid_members members)) = Some out"
    and "length out \<le> (if initial_creditors es members = [] \<or> initial_debtors es members = [] then 0
                       else length (initial_creditors es members) + length (initial_debtors es members) - 1)"
    using settle_balances_moderate [of "balances_of es (valid_members members)"] assms
    unfolding initial_creditors_def initial_debtors_def by blast
  ultimately show ?thesis
    by simp
qed

theorem transaction_count_bound_witness:
  "moderate (Fin 60) \<and> moderate (Fin (- 30))
   \<and> initial_creditors [\<lparr>payer = JStr ''A'', amount = JNum (Fin 90)\<rparr>] (Some [''A'', ''B'', ''C''])
     = [\<lparr>name = ''A'', balance = Fin 60\<rparr>]
   \<and> initial_debtors [\<lparr>payer = JStr ''A'', amount = JNum (Fin 90)\<rparr>] (Some [''A'', ''B'', ''C''])
     = [\<lparr>name = ''B'', balance = Fin (- 30)\<rparr>, \<lparr>name = ''C'', balance = Fin (- 30)\<rparr>]
   \<and> (\<exists>out. calculateExpenseSplit (Some [\<lparr>payer = JStr ''A'', amount = JNum (Fin 90)\<rparr>])
              (Some [''A'', ''B'', ''C'']) = Some out \<and> length out \<le> 2)"
proof -
  have m: "moderate (Fin 60)" "moderate (Fin (- 30))"
    by (simp_all add: moderate_def)
  have v: "valid_members (Some [''A'', ''B'', ''C'']) = [''A'', ''B'', ''C'']"
    by (simp add: valid_members_def valid_member_def trim_def is_ws_def)
  have b: "balances_of [\<lparr>payer = JStr ''A'', amount = JNum (Fin 90)\<rparr>] [''A'', ''B'', ''C'']
      = [(''A'', Fin 60), (''B'', Fin (- 30)), (''C'', Fin (- 30))]"
    by (simp add: eval_defs)
  have c: "initial_creditors [\<lparr>payer = JStr ''A'', amount = JNum (Fin 90)\<rparr>] (Some [''A'', ''B'', ''C''])
     = [\<lparr>name = ''A'', balance = Fin 60\<rparr>]"
    by (simp add: initial_creditors_def v b) (simp add: eval_defs)
  have d: "initial_debtors [\<lparr>payer = JStr ''A'', amount = JNum (Fin 90)\<rparr>] (Some [''A'', ''B'', ''C''])
     = [\<lparr>name = ''B'', balance = Fin (- 30)\<rparr>, \<lparr>name = ''C'', balance = Fin (- 30)\<rparr>]"
    by (simp add: initial_debtors_def v b) (simp add: eval_defs)
  have "\<forall>p\<in>set (initial_creditors [\<lparr>payer = JStr ''A'', amount = JNum (Fin 90)\<rparr>] (Some [''A'', ''B'', ''C''])
        @ initial_debtors [\<lparr>payer = JStr ''A'', amount = JNum (Fin 90)\<rparr>] (Some [''A'', ''B'', ''C''])).
      moderate (balance p)"
    using m by (simp add: c d)
  from transaction_count_bound [OF this] m c d show ?thesis
    by (simp add: numeral_2_eq_2)
qed




end
